theory Spec2Isabelle
  imports Complex_Main "HOL-Library.Multiset"
begin

section \<open>Range validator: suggested ranges (validators.py)\<close>

text \<open>
  A page number, an image count and every limit is a Python \<open>int\<close>, modelled as
  \<open>int\<close>. The opened pikepdf document is observed only through \<open>len(doc.pages)\<close> and
  \<open>len(doc.pages[i].images)\<close>: it is modelled as the list of the image counts of its pages.
\<close>

type_synonym pikepdf_doc = "nat list"

text \<open>
  \<open>doc.pages[i]\<close> follows Python's sequence protocol: a negative index counts from the
  end, and an index outside the list raises IndexError (\<open>None\<close>).
\<close>

definition pages_getitem :: "'a list \<Rightarrow> int \<Rightarrow> 'a option" where
  "pages_getitem ps i =
     (let n = int (length ps);
          j = (if i < 0 then i + n else i)
      in if 0 \<le> j \<and> j < n then Some (ps ! nat j) else None)"

record suggested_range =
  start_page :: int
  end_page :: int
  estimated_images :: int
  page_count :: int

text \<open>
  The inner \<open>for page_num in range(current_start - 1, current_end)\<close> loop of
  \<open>calculate_suggested_ranges\<close>, from \<open>page_num\<close> on, with the loop variables
  \<open>current_images\<close> and \<open>final_end\<close>. The result is the pair
  \<open>(current_images, final_end)\<close> when the loop is left (by exhaustion or by
  \<open>break\<close>), or \<open>None\<close> when \<open>doc.pages[page_num]\<close> raises.
\<close>

function count_range_images ::
  "pikepdf_doc \<Rightarrow> int \<Rightarrow> int \<Rightarrow> int \<Rightarrow> int \<Rightarrow> int \<Rightarrow> int \<Rightarrow> (int \<times> int) option" where
  "count_range_images doc max_images current_start current_end page_num current_images final_end =
     (if page_num < current_end then
        if page_num \<ge> int (length doc) then Some (current_images, final_end)
        else
          case pages_getitem doc page_num of
            None \<Rightarrow> None
          | Some page_images \<Rightarrow>
              if current_images + int page_images > max_images then
                if page_num = current_start - 1
                then Some (current_images + int page_images, page_num + 1)
                else Some (current_images, page_num)
              else count_range_images doc max_images current_start current_end
                     (page_num + 1) (current_images + int page_images) (page_num + 1)
      else Some (current_images, final_end))"
  by pat_completeness auto
termination
  by (relation "measure (\<lambda>(doc, max_images, current_start, current_end, page_num, current_images, final_end).
                  nat (current_end - page_num))") auto

declare count_range_images.simps [simp del]

lemma count_range_images_final_end:
  "count_range_images doc max_images current_start current_end page_num current_images final_end
     = Some (imgs, fe) \<Longrightarrow>
   current_start - 1 \<le> page_num \<Longrightarrow> current_start \<le> final_end \<Longrightarrow> current_start \<le> fe"
proof (induction doc max_images current_start current_end page_num current_images final_end
       rule: count_range_images.induct)
  case (1 doc max_images current_start current_end page_num current_images final_end)
  show ?case
  proof (cases "page_num < current_end \<and> \<not> page_num \<ge> int (length doc)")
    case False
    with "1.prems" show ?thesis
      by (auto simp: count_range_images.simps [of _ _ _ _ page_num] split: if_splits)
  next
    case True
    then obtain page_images where g: "pages_getitem doc page_num = Some page_images"
      using "1.prems"(1)
      by (auto simp: count_range_images.simps [of _ _ _ _ page_num] split: option.splits)
    show ?thesis
    proof (cases "current_images + int page_images > max_images")
      case over: True
      with True g "1.prems" show ?thesis
        by (auto simp: count_range_images.simps [of _ _ _ _ page_num] split: if_splits)
    next
      case under: False
      with True g "1.prems"(1)
      have "count_range_images doc max_images current_start current_end
              (page_num + 1) (current_images + int page_images) (page_num + 1) = Some (imgs, fe)"
        by (simp add: count_range_images.simps [of _ _ _ _ page_num])
      moreover have "current_start - 1 \<le> page_num + 1" "current_start \<le> page_num + 1"
        using "1.prems"(2) by auto
      ultimately show ?thesis
        using "1.IH" [OF _ _ g] True under by auto
    qed
  qed
qed

text \<open>The part of the global \<open>config\<close> object (config.py) that the modelled code reads.\<close>

record config =
  max_pages_per_request :: int
  max_images_per_request :: int
  max_suggested_ranges :: int
  corruption_threshold :: rat

text \<open>
  The \<open>while current_start <= end_page and len(ranges) < config.max_suggested_ranges\<close>
  loop, with the loop variables \<open>current_start\<close> and \<open>ranges\<close>.
\<close>

function suggest_loop ::
  "config \<Rightarrow> pikepdf_doc \<Rightarrow> int \<Rightarrow> int \<Rightarrow> int \<Rightarrow> int \<Rightarrow> suggested_range list
     \<Rightarrow> suggested_range list option" where
  "suggest_loop cfg doc end_p max_pages max_images current_start ranges =
     (if current_start \<le> end_p \<and> int (length ranges) < max_suggested_ranges cfg then
        let current_end = min (current_start + max_pages - 1) end_p in
        case count_range_images doc max_images current_start current_end
               (current_start - 1) 0 current_start of
          None \<Rightarrow> None
        | Some (current_images, final_end) \<Rightarrow>
            suggest_loop cfg doc end_p max_pages max_images (final_end + 1)
              (if final_end \<ge> current_start
               then ranges @ [\<lparr>start_page = current_start, end_page = final_end,
                               estimated_images = current_images,
                               page_count = final_end - current_start + 1\<rparr>]
               else ranges)
      else Some ranges)"
  by pat_completeness auto
termination
proof (relation "measure (\<lambda>(cfg, doc, end_p, max_pages, max_images, current_start, ranges).
                   nat (end_p + 1 - current_start))", goal_cases)
  case 1
  show ?case by simp
next
  case (2 cfg doc end_p max_pages max_images current_start ranges current_end res imgs fe)
  then have "count_range_images doc max_images current_start current_end
               (current_start - 1) 0 current_start = Some (imgs, fe)"
    by simp
  then have "current_start \<le> fe"
    by (rule count_range_images_final_end) simp_all
  with 2 show ?case by simp
qed

declare suggest_loop.simps [simp del]

definition calculate_suggested_ranges ::
  "config \<Rightarrow> pikepdf_doc \<Rightarrow> int \<Rightarrow> int \<Rightarrow> int \<Rightarrow> int \<Rightarrow> suggested_range list option" where
  "calculate_suggested_ranges cfg doc start_p end_p max_pages max_images =
     suggest_loop cfg doc end_p max_pages max_images start_p []"

subsection \<open>Properties of the ranges\<close>

text \<open>
  \<open>chain s rs\<close>: the ranges are non-empty page spans, the first starts at \<open>s\<close> and each
  next one starts on the page after the end of the one before it.
\<close>

fun chain :: "int \<Rightarrow> suggested_range list \<Rightarrow> bool" where
  "chain s [] = True"
| "chain s (r # rs) = (start_page r = s \<and> start_page r \<le> end_page r \<and> chain (end_page r + 1) rs)"

definition next_start :: "int \<Rightarrow> suggested_range list \<Rightarrow> int" where
  "next_start s rs = (if rs = [] then s else end_page (last rs) + 1)"

text \<open>
  \<open>within_limits\<close>: the range has the page count of its span, at most \<open>max_pages\<close> pages
  and at most \<open>max_images\<close> images, unless it is the range of one page of the document
  that has more than \<open>max_images\<close> images by itself.
\<close>

definition within_limits :: "pikepdf_doc \<Rightarrow> int \<Rightarrow> int \<Rightarrow> int \<Rightarrow> suggested_range \<Rightarrow> bool" where
  "within_limits doc end_p max_pages max_images r =
     (page_count r = end_page r - start_page r + 1 \<and> page_count r \<le> max_pages \<and>
      end_page r \<le> end_p \<and>
      (estimated_images r \<le> max_images \<or>
       page_count r = 1 \<and> start_page r \<le> int (length doc) \<and>
       estimated_images r = int (doc ! nat (start_page r - 1))))"

text \<open>The defaults of the \<open>Config\<close> class.\<close>

definition default_config :: config where
  "default_config = \<lparr>max_pages_per_request = 10, max_images_per_request = 50,
                      max_suggested_ranges = 5, corruption_threshold = 3 / 10\<rparr>"

lemma pages_getitem_in_range:
  "0 \<le> i \<Longrightarrow> i < int (length ps) \<Longrightarrow> pages_getitem ps i = Some (ps ! nat i)"
  by (simp add: pages_getitem_def)

lemma count_range_images_inv:
  "0 \<le> page_num \<Longrightarrow> current_start - 1 \<le> page_num \<Longrightarrow> current_start \<le> final_end \<Longrightarrow>
   final_end \<le> current_end \<Longrightarrow> current_images \<le> max_images \<Longrightarrow>
   \<exists>imgs fe.
     count_range_images doc max_images current_start current_end page_num current_images final_end
       = Some (imgs, fe) \<and>
     current_start \<le> fe \<and> fe \<le> current_end \<and>
     (imgs \<le> max_images \<or>
      page_num = current_start - 1 \<and> fe = current_start \<and> page_num < int (length doc) \<and>
      imgs = current_images + int (doc ! nat page_num))"
proof (induction doc max_images current_start current_end page_num current_images final_end
       rule: count_range_images.induct)
  case (1 doc max_images current_start current_end page_num current_images final_end)
  show ?case
  proof (cases "page_num < current_end \<and> \<not> page_num \<ge> int (length doc)")
    case False
    with "1.prems" show ?thesis
      by (auto simp: count_range_images.simps [of _ _ _ _ page_num])
  next
    case True
    define page_images where "page_images = doc ! nat page_num"
    have g: "pages_getitem doc page_num = Some page_images"
      using True "1.prems"(1) by (simp add: pages_getitem_in_range page_images_def)
    show ?thesis
    proof (cases "current_images + int page_images > max_images")
      case over: True
      have res: "count_range_images doc max_images current_start current_end page_num
                   current_images final_end =
                 (if page_num = current_start - 1
                  then Some (current_images + int page_images, page_num + 1)
                  else Some (current_images, page_num))"
        using True g over by (simp add: count_range_images.simps [of _ _ _ _ page_num])
      show ?thesis
      proof (cases "page_num = current_start - 1")
        case first: True
        have "current_start \<le> page_num + 1" "page_num + 1 \<le> current_end"
             "page_num + 1 = current_start" "page_num < int (length doc)"
          using first True by auto
        then show ?thesis
          unfolding res using first by (simp add: page_images_def)
      next
        case later: False
        have "current_start \<le> page_num" "page_num \<le> current_end"
          using later True "1.prems"(2) by auto
        then show ?thesis
          unfolding res using later "1.prems"(5) by simp
      qed
    next
      case under: False
      have "\<exists>imgs fe.
         count_range_images doc max_images current_start current_end (page_num + 1)
           (current_images + int page_images) (page_num + 1) = Some (imgs, fe) \<and>
         current_start \<le> fe \<and> fe \<le> current_end \<and> imgs \<le> max_images"
        using "1.IH" [OF _ _ g] True under "1.prems" by auto
      then obtain imgs fe where
        r: "count_range_images doc max_images current_start current_end (page_num + 1)
              (current_images + int page_images) (page_num + 1) = Some (imgs, fe)"
        and b: "current_start \<le> fe" "fe \<le> current_end" "imgs \<le> max_images"
        by blast
      have "count_range_images doc max_images current_start current_end page_num
              current_images final_end = Some (imgs, fe)"
        using True g under r by (simp add: count_range_images.simps [of _ _ _ _ page_num])
      with b show ?thesis by blast
    qed
  qed
qed

lemma chain_append:
  "chain s (xs @ ys) = (chain s xs \<and> chain (next_start s xs) ys)"
  by (induction xs arbitrary: s) (auto simp: next_start_def)

lemma next_start_snoc: "next_start s (rs @ [r]) = end_page r + 1"
  by (simp add: next_start_def)

lemma suggest_loop_inv:
  "1 \<le> current_start \<Longrightarrow> 1 \<le> max_pages \<Longrightarrow> 0 \<le> max_images \<Longrightarrow>
   chain s ranges \<Longrightarrow> next_start s ranges = current_start \<Longrightarrow>
   \<forall>r \<in> set ranges. within_limits doc end_p max_pages max_images r \<Longrightarrow>
   \<exists>rs. suggest_loop cfg doc end_p max_pages max_images current_start ranges = Some rs \<and>
        chain s rs \<and> (\<forall>r \<in> set rs. within_limits doc end_p max_pages max_images r)"
proof (induction cfg doc end_p max_pages max_images current_start ranges
       rule: suggest_loop.induct)
  case (1 cfg doc end_p max_pages max_images current_start ranges)
  show ?case
  proof (cases "current_start \<le> end_p \<and> int (length ranges) < max_suggested_ranges cfg")
    case False
    with "1.prems" show ?thesis
      by (auto simp: suggest_loop.simps [of _ _ _ _ _ current_start])
  next
    case True
    define current_end where "current_end = min (current_start + max_pages - 1) end_p"
    have ce: "current_start \<le> current_end" "current_end \<le> end_p"
             "current_end - current_start + 1 \<le> max_pages"
      using True "1.prems"(2) by (auto simp: current_end_def)
    obtain imgs fe where
      c: "count_range_images doc max_images current_start current_end
            (current_start - 1) 0 current_start = Some (imgs, fe)"
      and fe: "current_start \<le> fe" "fe \<le> current_end"
      and im: "imgs \<le> max_images \<or>
               fe = current_start \<and> current_start - 1 < int (length doc) \<and>
               imgs = int (doc ! nat (current_start - 1))"
      using count_range_images_inv [of "current_start - 1" current_start current_start
              current_end 0 max_images doc] "1.prems"(1,3) ce by auto
    define r where "r = \<lparr>start_page = current_start, end_page = fe,
                          estimated_images = imgs, page_count = fe - current_start + 1\<rparr>"
    have wl: "within_limits doc end_p max_pages max_images r"
      using fe im ce by (auto simp: within_limits_def r_def)
    have ch: "chain s (ranges @ [r])"
      using "1.prems"(4,5) fe by (simp add: chain_append r_def)
    have ns: "next_start s (ranges @ [r]) = fe + 1"
      by (simp add: next_start_snoc r_def)
    have "\<exists>rs. suggest_loop cfg doc end_p max_pages max_images (fe + 1)
                 (if fe \<ge> current_start
                  then ranges @ [\<lparr>start_page = current_start, end_page = fe,
                                  estimated_images = imgs, page_count = fe - current_start + 1\<rparr>]
                  else ranges) = Some rs \<and>
            chain s rs \<and> (\<forall>r \<in> set rs. within_limits doc end_p max_pages max_images r)"
    proof (rule "1.IH" [OF True refl c [unfolded current_end_def] refl])
      show "1 \<le> fe + 1" using fe "1.prems"(1) by simp
      show "1 \<le> max_pages" "0 \<le> max_images" using "1.prems" by simp_all
      show "chain s (if fe \<ge> current_start
                  then ranges @ [\<lparr>start_page = current_start, end_page = fe,
                                  estimated_images = imgs, page_count = fe - current_start + 1\<rparr>]
                  else ranges)"
        using ch fe by (simp add: r_def)
      show "next_start s (if fe \<ge> current_start
                  then ranges @ [\<lparr>start_page = current_start, end_page = fe,
                                  estimated_images = imgs, page_count = fe - current_start + 1\<rparr>]
                  else ranges) = fe + 1"
        using ns fe by (simp add: r_def)
      show "\<forall>r \<in> set (if fe \<ge> current_start
                  then ranges @ [\<lparr>start_page = current_start, end_page = fe,
                                  estimated_images = imgs, page_count = fe - current_start + 1\<rparr>]
                  else ranges). within_limits doc end_p max_pages max_images r"
        using wl "1.prems"(6) fe by (auto simp: r_def)
    qed
    then show ?thesis
      apply (subst suggest_loop.simps)
      using True c [unfolded current_end_def]
      apply (simp only: if_True Let_def option.case prod.case simp_thms)
      done
  qed
qed

lemma chain_hd: "chain s rs \<Longrightarrow> rs \<noteq> [] \<Longrightarrow> start_page (hd rs) = s"
  by (cases rs) auto

lemma chain_nth:
  "chain s rs \<Longrightarrow> Suc i < length rs \<Longrightarrow> start_page (rs ! Suc i) = end_page (rs ! i) + 1"
proof (induction rs arbitrary: s i)
  case Nil
  then show ?case by simp
next
  case (Cons r rs)
  show ?case
  proof (cases i)
    case 0
    with Cons.prems show ?thesis by (cases rs) auto
  next
    case (Suc j)
    with Cons.prems Cons.IH [of "end_page r + 1" j] show ?thesis by simp
  qed
qed

lemma chain_nonempty_spans: "chain s rs \<Longrightarrow> r \<in> set rs \<Longrightarrow> start_page r \<le> end_page r"
  by (induction rs arbitrary: s) auto

lemma suggest_loop_length:
  "suggest_loop cfg doc end_p max_pages max_images current_start ranges = Some rs \<Longrightarrow>
   length ranges \<le> length rs"
proof (induction cfg doc end_p max_pages max_images current_start ranges
       rule: suggest_loop.induct)
  case (1 cfg doc end_p max_pages max_images current_start ranges)
  show ?case
  proof (cases "current_start \<le> end_p \<and> int (length ranges) < max_suggested_ranges cfg")
    case False
    with "1.prems" show ?thesis
      by (simp add: suggest_loop.simps [of _ _ _ _ _ current_start])
  next
    case True
    from "1.prems" True obtain imgs fe where
      c: "count_range_images doc max_images current_start
            (min (current_start + max_pages - 1) end_p) (current_start - 1) 0 current_start
          = Some (imgs, fe)"
      and l: "suggest_loop cfg doc end_p max_pages max_images (fe + 1)
              (if fe \<ge> current_start
               then ranges @ [\<lparr>start_page = current_start, end_page = fe,
                               estimated_images = imgs, page_count = fe - current_start + 1\<rparr>]
               else ranges) = Some rs"
      by (subst (asm) suggest_loop.simps) (auto simp: Let_def split: option.splits)
    from "1.IH" [OF True refl c refl l] show ?thesis
      by (simp split: if_splits)
  qed
qed

lemma suggest_loop_first_range:
  assumes "start_p \<le> end_p" "0 < max_suggested_ranges cfg"
    and "suggest_loop cfg doc end_p max_pages max_images start_p [] = Some rs"
    and "1 \<le> start_p"
  shows "rs \<noteq> []"
proof -
  from assms(1-3) obtain imgs fe where
    c: "count_range_images doc max_images start_p
          (min (start_p + max_pages - 1) end_p) (start_p - 1) 0 start_p = Some (imgs, fe)"
    and l: "suggest_loop cfg doc end_p max_pages max_images (fe + 1)
              (if fe \<ge> start_p
               then [] @ [\<lparr>start_page = start_p, end_page = fe,
                            estimated_images = imgs, page_count = fe - start_p + 1\<rparr>]
               else []) = Some rs"
    by (subst (asm) suggest_loop.simps) (auto simp: Let_def split: option.splits)
  from c have "start_p \<le> fe"
    by (rule count_range_images_final_end) simp_all
  with suggest_loop_length [OF l] show ?thesis by auto
qed

text \<open>
  Claim C1, amended. For 1-indexed pages (\<open>1 \<le> start_page\<close>), \<open>start_page \<le> end_page\<close>,
  \<open>max_pages \<ge> 1\<close> and \<open>max_images \<ge> 0\<close>, \<open>calculate_suggested_ranges\<close> returns
  (it is a total function, and no page lookup raises). When at least one range may be
  suggested the result is not empty; its first range starts at \<open>start_page\<close>; each
  further range starts on the page after the end of the range before it, and every range
  spans at least one page, so the spans are contiguous and do not overlap; every range
  ends within the request, has the page count of its span and at most \<open>max_pages\<close>
  pages; and every range has at most \<open>max_images\<close> images, unless it is the range of a
  single page of the document, with the image count of that page. There can be several
  such ranges, one for each page that exceeds the image limit by itself.
\<close>

theorem calculate_suggested_ranges_contiguous_within_limits:
  assumes "1 \<le> start_p" and "start_p \<le> end_p" and "1 \<le> max_pages" and "0 \<le> max_images"
  shows "\<exists>rs. calculate_suggested_ranges cfg doc start_p end_p max_pages max_images = Some rs \<and>
           (0 < max_suggested_ranges cfg \<longrightarrow> rs \<noteq> []) \<and>
           (rs \<noteq> [] \<longrightarrow> start_page (hd rs) = start_p) \<and>
           (\<forall>i. Suc i < length rs \<longrightarrow> start_page (rs ! Suc i) = end_page (rs ! i) + 1) \<and>
           (\<forall>r \<in> set rs.
              start_page r \<le> end_page r \<and> end_page r \<le> end_p \<and>
              page_count r = end_page r - start_page r + 1 \<and>
              page_count r \<le> max_pages \<and>
              (estimated_images r \<le> max_images \<or>
               page_count r = 1 \<and> start_page r \<le> int (length doc) \<and>
               estimated_images r = int (doc ! nat (start_page r - 1))))"
proof -
  have "chain start_p []" "next_start start_p [] = start_p"
    by (simp_all add: next_start_def)
  with suggest_loop_inv [where current_start = start_p and s = start_p and ranges = "[]"
         and doc = doc and cfg = cfg and end_p = end_p and max_pages = max_pages
         and max_images = max_images] assms
  obtain rs where
    rs: "suggest_loop cfg doc end_p max_pages max_images start_p [] = Some rs"
    and ch: "chain start_p rs"
    and wl: "\<forall>r \<in> set rs. within_limits doc end_p max_pages max_images r"
    by auto
  have "0 < max_suggested_ranges cfg \<longrightarrow> rs \<noteq> []"
    using suggest_loop_first_range [OF assms(2) _ rs assms(1)] by blast
  moreover have "rs \<noteq> [] \<longrightarrow> start_page (hd rs) = start_p"
    using chain_hd [OF ch] by blast
  moreover have "\<forall>i. Suc i < length rs \<longrightarrow> start_page (rs ! Suc i) = end_page (rs ! i) + 1"
    using chain_nth [OF ch] by blast
  moreover have "\<forall>r \<in> set rs.
              start_page r \<le> end_page r \<and> end_page r \<le> end_p \<and>
              page_count r = end_page r - start_page r + 1 \<and>
              page_count r \<le> max_pages \<and>
              (estimated_images r \<le> max_images \<or>
               page_count r = 1 \<and> start_page r \<le> int (length doc) \<and>
               estimated_images r = int (doc ! nat (start_page r - 1)))"
    using wl chain_nonempty_spans [OF ch] by (auto simp: within_limits_def)
  ultimately show ?thesis
    unfolding calculate_suggested_ranges_def rs by blast
qed

text \<open>
  Claim C1 as stated allows a single range above the image limit, for every start page.
  An image-dense page makes a range of its own, and a request can hold several such
  pages: here the pages 2 and 3 each exceed the limit of 50 images, and two ranges do.
  A start page below 1 can make the page lookup raise: here page -7 of three pages.
\<close>

theorem calculate_suggested_ranges_counterexample:
  "calculate_suggested_ranges default_config [3, 60, 70, 2, 2] 1 5 2 50 =
     Some [\<lparr>start_page = 1, end_page = 1, estimated_images = 3, page_count = 1\<rparr>,
           \<lparr>start_page = 2, end_page = 2, estimated_images = 60, page_count = 1\<rparr>,
           \<lparr>start_page = 3, end_page = 3, estimated_images = 70, page_count = 1\<rparr>,
           \<lparr>start_page = 4, end_page = 5, estimated_images = 4, page_count = 2\<rparr>] \<and>
   (50::int) < 60 \<and> (50::int) < 70 \<and>
   calculate_suggested_ranges default_config [3, 60, 2] (- 7) 3 2 50 = None"
  by code_simp

theorem calculate_suggested_ranges_witness:
  "(1::int) \<le> 1 \<and> (1::int) \<le> 5 \<and> (1::int) \<le> 2 \<and> (0::int) \<le> 50 \<and>
   0 < max_suggested_ranges default_config \<and>
   (\<exists>rs. calculate_suggested_ranges default_config [3, 60, 70, 2, 2] 1 5 2 50 = Some rs \<and>
      rs \<noteq> [] \<and> Suc 0 < length rs \<and>
      start_page (hd rs) = 1 \<and>
      start_page (rs ! Suc 0) = end_page (rs ! 0) + 1 \<and>
      (\<forall>r \<in> set rs. page_count r \<le> 2 \<and> (estimated_images r \<le> 50 \<or> page_count r = 1)))"
proof -
  have ex: "calculate_suggested_ranges default_config [3, 60, 70, 2, 2] 1 5 2 50 =
     Some [\<lparr>start_page = 1, end_page = 1, estimated_images = 3, page_count = 1\<rparr>,
           \<lparr>start_page = 2, end_page = 2, estimated_images = 60, page_count = 1\<rparr>,
           \<lparr>start_page = 3, end_page = 3, estimated_images = 70, page_count = 1\<rparr>,
           \<lparr>start_page = 4, end_page = 5, estimated_images = 4, page_count = 2\<rparr>]"
    by code_simp
  have c: "0 < max_suggested_ranges default_config"
    by (simp add: default_config_def)
  from calculate_suggested_ranges_contiguous_within_limits
         [where start_p = 1 and end_p = 5 and max_pages = 2 and max_images = 50
            and cfg = default_config and doc = "[3, 60, 70, 2, 2]"] c
  show ?thesis
    unfolding ex by simp
qed

section \<open>Content orderer (content_orderer.py)\<close>

text \<open>
  A Python \<open>str\<close> is the list of its Unicode code points. A vertical position is a
  number that Python compares by value (a finite float, or the int 0): a rational.
\<close>

type_synonym pystr = "nat list"

datatype content_type = Text | Table | Image

text \<open>The three kinds of input dictionaries, with their keys.\<close>

record text_region =
  region_top :: rat
  region_text :: pystr

record table_info =
  table_top :: rat
  markdown :: pystr

record img_info =
  img_top :: rat
  image_data :: pystr

text \<open>
  An entry of \<open>all_blocks\<close> while it has the key \<open>'top'\<close>, and the block that is
  returned, where \<open>'position'\<close> has replaced \<open>'top'\<close>. The key \<open>'image'\<close> is always
  \<open>None\<close>.
\<close>

record top_block =
  tb_type :: content_type
  tb_top :: rat
  tb_content :: pystr
  tb_image :: "pystr option"

record ordered_block =
  block_type :: content_type
  content :: pystr
  image :: "pystr option"
  position :: rat

text \<open>The three \<open>for\<close> loops that fill \<open>all_blocks\<close>.\<close>

definition all_blocks :: "text_region list \<Rightarrow> table_info list \<Rightarrow> img_info list \<Rightarrow> top_block list" where
  "all_blocks text_regions tables images =
     map (\<lambda>region. \<lparr>tb_type = Text, tb_top = region_top region,
                      tb_content = region_text region, tb_image = None\<rparr>) text_regions @
     map (\<lambda>table_info. \<lparr>tb_type = Table, tb_top = table_top table_info,
                          tb_content = markdown table_info, tb_image = None\<rparr>) tables @
     map (\<lambda>img_info. \<lparr>tb_type = Image, tb_top = img_top img_info,
                        tb_content = image_data img_info, tb_image = None\<rparr>) images"

text \<open>The body of the last loop: \<open>block['position'] = block['top']; del block['top']\<close>.\<close>

definition add_position :: "top_block \<Rightarrow> ordered_block" where
  "add_position block =
     \<lparr>block_type = tb_type block, content = tb_content block, image = tb_image block,
      position = tb_top block\<rparr>"

text \<open>
  \<open>all_blocks.sort(key=lambda x: x['top'])\<close> is Python's \<open>list.sort\<close>, a stable sort.
  The stably sorted arrangement of a list is unique (\<open>properties_for_sort_key\<close>), so
  it is the list that \<open>sort_key\<close> computes.
\<close>

definition order_content_blocks ::
  "text_region list \<Rightarrow> table_info list \<Rightarrow> img_info list \<Rightarrow> ordered_block list" where
  "order_content_blocks text_regions tables images =
     map add_position (sort_key tb_top (all_blocks text_regions tables images))"

definition merge_adjacent_text_blocks :: "ordered_block list \<Rightarrow> ordered_block list" where
  "merge_adjacent_text_blocks blocks = (if blocks = [] then [] else blocks)"

lemma position_add_position: "position (add_position b) = tb_top b"
  by (simp add: add_position_def)

lemma filter_map_add_position:
  "filter (\<lambda>b. position b = p) (map add_position bs) =
   map add_position (filter (\<lambda>b. tb_top b = p) bs)"
  by (induction bs) (simp_all add: position_add_position)

text \<open>
  Claim C3. The positions of the returned blocks ascend, and for every position \<open>p\<close>
  the returned blocks at exactly \<open>p\<close> are, in this order, the text regions at \<open>p\<close>, the
  tables at \<open>p\<close> and the images at \<open>p\<close>, each group in the order of its input list.
\<close>

theorem order_content_blocks_sorted_stable:
  "sorted (map position (order_content_blocks text_regions tables images)) \<and>
   (\<forall>p. filter (\<lambda>b. position b = p) (order_content_blocks text_regions tables images) =
      map (\<lambda>r. \<lparr>block_type = Text, content = region_text r, image = None, position = p\<rparr>)
        (filter (\<lambda>r. region_top r = p) text_regions) @
      map (\<lambda>t. \<lparr>block_type = Table, content = markdown t, image = None, position = p\<rparr>)
        (filter (\<lambda>t. table_top t = p) tables) @
      map (\<lambda>i. \<lparr>block_type = Image, content = image_data i, image = None, position = p\<rparr>)
        (filter (\<lambda>i. img_top i = p) images))"
proof
  have "map position (order_content_blocks text_regions tables images) =
        map tb_top (sort_key tb_top (all_blocks text_regions tables images))"
    by (simp add: order_content_blocks_def position_add_position comp_def)
  then show "sorted (map position (order_content_blocks text_regions tables images))"
    by (simp add: sorted_sort_key)
next
  show "\<forall>p. filter (\<lambda>b. position b = p) (order_content_blocks text_regions tables images) =
      map (\<lambda>r. \<lparr>block_type = Text, content = region_text r, image = None, position = p\<rparr>)
        (filter (\<lambda>r. region_top r = p) text_regions) @
      map (\<lambda>t. \<lparr>block_type = Table, content = markdown t, image = None, position = p\<rparr>)
        (filter (\<lambda>t. table_top t = p) tables) @
      map (\<lambda>i. \<lparr>block_type = Image, content = image_data i, image = None, position = p\<rparr>)
        (filter (\<lambda>i. img_top i = p) images)"
  proof
    fix p
    have "filter (\<lambda>b. position b = p) (order_content_blocks text_regions tables images) =
          map add_position (filter (\<lambda>b. tb_top b = p) (all_blocks text_regions tables images))"
      by (simp add: order_content_blocks_def filter_map_add_position sort_key_stable)
    also have "\<dots> =
      map (\<lambda>r. \<lparr>block_type = Text, content = region_text r, image = None, position = p\<rparr>)
        (filter (\<lambda>r. region_top r = p) text_regions) @
      map (\<lambda>t. \<lparr>block_type = Table, content = markdown t, image = None, position = p\<rparr>)
        (filter (\<lambda>t. table_top t = p) tables) @
      map (\<lambda>i. \<lparr>block_type = Image, content = image_data i, image = None, position = p\<rparr>)
        (filter (\<lambda>i. img_top i = p) images)"
      by (simp add: all_blocks_def filter_map comp_def add_position_def)
    finally show "filter (\<lambda>b. position b = p) (order_content_blocks text_regions tables images) =
      map (\<lambda>r. \<lparr>block_type = Text, content = region_text r, image = None, position = p\<rparr>)
        (filter (\<lambda>r. region_top r = p) text_regions) @
      map (\<lambda>t. \<lparr>block_type = Table, content = markdown t, image = None, position = p\<rparr>)
        (filter (\<lambda>t. table_top t = p) tables) @
      map (\<lambda>i. \<lparr>block_type = Image, content = image_data i, image = None, position = p\<rparr>)
        (filter (\<lambda>i. img_top i = p) images)" .
  qed
qed

text \<open>
  Claim C10. The result has as many blocks as the three input lists have fragments
  together, and as a multiset it is exactly the blocks of the fragments: a text block per
  text region, a table block per table, an image block per image, each with the payload
  of its fragment as content and the \<open>top\<close> of its fragment as position. Nothing is
  dropped, duplicated or changed.
\<close>

theorem order_content_blocks_permutes:
  "length (order_content_blocks text_regions tables images) =
     length text_regions + length tables + length images \<and>
   mset (order_content_blocks text_regions tables images) =
     mset (map (\<lambda>r. \<lparr>block_type = Text, content = region_text r, image = None,
                       position = region_top r\<rparr>) text_regions) +
     mset (map (\<lambda>t. \<lparr>block_type = Table, content = markdown t, image = None,
                       position = table_top t\<rparr>) tables) +
     mset (map (\<lambda>i. \<lparr>block_type = Image, content = image_data i, image = None,
                       position = img_top i\<rparr>) images)"
proof
  show "length (order_content_blocks text_regions tables images) =
     length text_regions + length tables + length images"
    by (simp add: order_content_blocks_def all_blocks_def)
next
  have "mset (order_content_blocks text_regions tables images) =
        image_mset add_position (mset (all_blocks text_regions tables images))"
    by (simp add: order_content_blocks_def)
  also have "\<dots> =
     mset (map (\<lambda>r. \<lparr>block_type = Text, content = region_text r, image = None,
                       position = region_top r\<rparr>) text_regions) +
     mset (map (\<lambda>t. \<lparr>block_type = Table, content = markdown t, image = None,
                       position = table_top t\<rparr>) tables) +
     mset (map (\<lambda>i. \<lparr>block_type = Image, content = image_data i, image = None,
                       position = img_top i\<rparr>) images)"
    by (simp add: all_blocks_def add_position_def multiset.map_comp comp_def)
  finally show "mset (order_content_blocks text_regions tables images) =
     mset (map (\<lambda>r. \<lparr>block_type = Text, content = region_text r, image = None,
                       position = region_top r\<rparr>) text_regions) +
     mset (map (\<lambda>t. \<lparr>block_type = Table, content = markdown t, image = None,
                       position = table_top t\<rparr>) tables) +
     mset (map (\<lambda>i. \<lparr>block_type = Image, content = image_data i, image = None,
                       position = img_top i\<rparr>) images)" .
qed

section \<open>Table formatter: merged cells (table_converter.py)\<close>

text \<open>
  What the code takes from the Python runtime rather than from the repository is a
  parameter of the model: which code points \<open>str.strip()\<close> and the regex class
  \<open>\s\<close> treat as whitespace, which ones \<open>\d\<close> matches, and the double that
  \<open>/\<close> returns for two ints.
\<close>

record python_rt =
  isspace :: "nat \<Rightarrow> bool"
  isdecimal :: "nat \<Rightarrow> bool"
  truediv :: "int \<Rightarrow> int \<Rightarrow> rat"

definition strip :: "python_rt \<Rightarrow> pystr \<Rightarrow> pystr" where
  "strip u s = rev (dropWhile (isspace u) (rev (dropWhile (isspace u) s)))"

type_synonym cell = "pystr option"

text \<open>\<open>cell is None or (isinstance(cell, str) and cell.strip() == '')\<close>\<close>

definition is_empty_cell :: "python_rt \<Rightarrow> cell \<Rightarrow> bool" where
  "is_empty_cell u cell = (case cell of None \<Rightarrow> True | Some s \<Rightarrow> strip u s = [])"

text \<open>\<open>last_value or ''\<close>: \<open>None\<close> and the empty string are falsy.\<close>

definition or_empty :: "cell \<Rightarrow> pystr" where
  "or_empty last_value = (case last_value of None \<Rightarrow> [] | Some s \<Rightarrow> (if s = [] then [] else s))"

text \<open>
  The inner loop \<open>for row in filled_table\<close> for one \<open>col_idx\<close>, from the loop variable
  \<open>last_value\<close> on; the rows are updated in place.
\<close>

fun fill_column :: "python_rt \<Rightarrow> nat \<Rightarrow> cell \<Rightarrow> cell list list \<Rightarrow> cell list list" where
  "fill_column u col_idx last_value [] = []"
| "fill_column u col_idx last_value (row # rows) =
     (if col_idx \<ge> length row then row # fill_column u col_idx last_value rows
      else
        let cell = row ! col_idx in
        if is_empty_cell u cell
        then row[col_idx := Some (or_empty last_value)] # fill_column u col_idx last_value rows
        else row # fill_column u col_idx cell rows)"

definition fill_merged_cells :: "python_rt \<Rightarrow> cell list list \<Rightarrow> cell list list" where
  "fill_merged_cells u table =
     (if table = [] then table
      else foldl (\<lambda>filled_table col_idx. fill_column u col_idx None filled_table)
             table [0..<length (hd table)])"

subsection \<open>What a fill pass is expected to do\<close>

text \<open>
  The nearest non-empty value above row \<open>i\<close> in column \<open>j\<close>, looking upwards from row
  \<open>i - 1\<close>; \<open>None\<close> when there is none.
\<close>

fun nearest_above :: "python_rt \<Rightarrow> cell list list \<Rightarrow> nat \<Rightarrow> nat \<Rightarrow> cell" where
  "nearest_above u table j 0 = None"
| "nearest_above u table j (Suc i) =
     (if j < length (table ! i) \<and> \<not> is_empty_cell u (table ! i ! j) then table ! i ! j
      else nearest_above u table j i)"

definition filled_cell :: "python_rt \<Rightarrow> cell list list \<Rightarrow> nat \<Rightarrow> nat \<Rightarrow> cell" where
  "filled_cell u table i j =
     (if is_empty_cell u (table ! i ! j)
      then Some (case nearest_above u table j i of None \<Rightarrow> [] | Some v \<Rightarrow> v)
      else table ! i ! j)"

text \<open>
  A runtime for evaluating examples: it agrees with CPython on ASCII code points, and
  \<open>truediv\<close> is the exact quotient. \<open>str\<close> turns a literal into its code points.
\<close>

definition ascii_rt :: python_rt where
  "ascii_rt = \<lparr>isspace = (\<lambda>c. c \<in> {9, 10, 11, 12, 13, 28, 29, 30, 31, 32}),
               isdecimal = (\<lambda>c. 48 \<le> c \<and> c \<le> 57),
               truediv = (\<lambda>a b. of_int a / of_int b)\<rparr>"

definition str :: "string \<Rightarrow> pystr" where
  "str s = map of_char s"

text \<open>The value of \<open>last_value\<close> after the inner loop has passed the rows.\<close>

fun last_value_after :: "python_rt \<Rightarrow> nat \<Rightarrow> cell \<Rightarrow> cell list list \<Rightarrow> cell" where
  "last_value_after u c lv [] = lv"
| "last_value_after u c lv (row # rows) =
     (if c < length row \<and> \<not> is_empty_cell u (row ! c) then last_value_after u c (row ! c) rows
      else last_value_after u c lv rows)"


definition merged_table :: "cell list list" where
  "merged_table = [[Some (str ''h''), None],
                   [None, Some (str ''x'')],
                   [Some (str '' ''), None],
                   [None]]"

lemma length_fill_column [simp]: "length (fill_column u c lv t) = length t"
  by (induction t arbitrary: lv) (auto simp: Let_def)

lemma length_nth_fill_column [simp]:
  "i < length t \<Longrightarrow> length (fill_column u c lv t ! i) = length (t ! i)"
proof (induction t arbitrary: lv i)
  case Nil then show ?case by simp
next
  case (Cons r t)
  then show ?case by (cases i) (auto simp: Let_def)
qed

lemma fill_column_other:
  "i < length t \<Longrightarrow> j \<noteq> c \<Longrightarrow> fill_column u c lv t ! i ! j = t ! i ! j"
proof (induction t arbitrary: lv i)
  case Nil then show ?case by simp
next
  case (Cons r t)
  then show ?case by (cases i) (auto simp: Let_def)
qed

lemma fill_column_same:
  "i < length t \<Longrightarrow> c < length (t ! i) \<Longrightarrow>
   fill_column u c lv t ! i ! c =
     (if is_empty_cell u (t ! i ! c) then Some (or_empty (last_value_after u c lv (take i t)))
      else t ! i ! c)"
proof (induction t arbitrary: lv i)
  case Nil then show ?case by simp
next
  case (Cons r t)
  then show ?case by (cases i) (auto simp: Let_def)
qed

lemma last_value_after_snoc:
  "last_value_after u c lv (rows @ [row]) =
     (if c < length row \<and> \<not> is_empty_cell u (row ! c) then row ! c
      else last_value_after u c lv rows)"
  by (induction rows arbitrary: lv) auto

lemma last_value_after_nearest:
  "i \<le> length t \<Longrightarrow> last_value_after u c None (take i t) = nearest_above u t c i"
proof (induction i)
  case 0 then show ?case by simp
next
  case (Suc i)
  then have "take (Suc i) t = take i t @ [t ! i]"
    by (simp add: take_Suc_conv_app_nth)
  with Suc show ?case by (simp add: last_value_after_snoc)
qed

lemma or_empty_case: "or_empty c = (case c of None \<Rightarrow> [] | Some v \<Rightarrow> v)"
  by (simp add: or_empty_def split: option.splits)

lemma nearest_above_cong:
  "\<forall>k<i. length (t' ! k) = length (t ! k) \<and> (j < length (t ! k) \<longrightarrow> t' ! k ! j = t ! k ! j) \<Longrightarrow>
   nearest_above u t' j i = nearest_above u t j i"
  by (induction i) auto

lemma fold_columns_shape:
  "length (foldl (\<lambda>ft c. fill_column u c None ft) t cs) = length t \<and>
   (\<forall>i<length t. length (foldl (\<lambda>ft c. fill_column u c None ft) t cs ! i) = length (t ! i))"
  by (induction cs rule: rev_induct) auto

lemma fold_columns_nth:
  "distinct cs \<Longrightarrow> i < length t \<Longrightarrow> j < length (t ! i) \<Longrightarrow>
   foldl (\<lambda>ft c. fill_column u c None ft) t cs ! i ! j =
     (if j \<in> set cs then filled_cell u t i j else t ! i ! j)"
proof (induction cs arbitrary: i j rule: rev_induct)
  case Nil
  then show ?case by simp
next
  case (snoc c cs)
  define t' where "t' = foldl (\<lambda>ft c. fill_column u c None ft) t cs"
  have shape: "length t' = length t" "\<And>k. k < length t \<Longrightarrow> length (t' ! k) = length (t ! k)"
    using fold_columns_shape [of u t cs] by (auto simp: t'_def)
  have d: "distinct cs" "c \<notin> set cs" using snoc.prems(1) by auto
  have old: "\<And>k l. k < length t \<Longrightarrow> l < length (t ! k) \<Longrightarrow>
               t' ! k ! l = (if l \<in> set cs then filled_cell u t k l else t ! k ! l)"
    unfolding t'_def using snoc.IH [OF d(1)] by blast
  have step: "foldl (\<lambda>ft c. fill_column u c None ft) t (cs @ [c]) = fill_column u c None t'"
    by (simp add: t'_def)
  show ?case
  proof (cases "j = c")
    case False
    then have "fill_column u c None t' ! i ! j = t' ! i ! j"
      using fill_column_other [of i t' j c u None] snoc.prems(2) shape by simp
    with False old [OF snoc.prems(2,3)] step show ?thesis by simp
  next
    case True
    have col: "\<forall>k<i. length (t' ! k) = length (t ! k) \<and>
                 (c < length (t ! k) \<longrightarrow> t' ! k ! c = t ! k ! c)"
      using shape old d(2) snoc.prems(2) by auto
    have same: "t' ! i ! c = t ! i ! c"
      using old [OF snoc.prems(2), of c] snoc.prems(3) True d(2) by simp
    have "fill_column u c None t' ! i ! c =
            (if is_empty_cell u (t' ! i ! c)
             then Some (or_empty (last_value_after u c None (take i t'))) else t' ! i ! c)"
      using fill_column_same [of i t' c u None] snoc.prems(2,3) shape True by simp
    also have "last_value_after u c None (take i t') = nearest_above u t' c i"
      using last_value_after_nearest [of i t' u c] snoc.prems(2) shape by simp
    also have "\<dots> = nearest_above u t c i"
      using nearest_above_cong [OF col] .
    finally have "fill_column u c None t' ! i ! c = filled_cell u t i c"
      by (simp add: same filled_cell_def or_empty_case)
    with True step show ?thesis by simp
  qed
qed

lemma fill_merged_cells_shape:
  "length (fill_merged_cells u t) = length t \<and>
   (\<forall>i<length t. length (fill_merged_cells u t ! i) = length (t ! i))"
  using fold_columns_shape [of u t "[0..<length (hd t)]"]
  by (simp add: fill_merged_cells_def)

lemma fill_merged_cells_nth:
  assumes "i < length t" "j < length (t ! i)"
  shows "fill_merged_cells u t ! i ! j =
           (if j < length (hd t) then filled_cell u t i j else t ! i ! j)"
proof -
  from assms have "t \<noteq> []" by auto
  then show ?thesis
    using fold_columns_nth [of "[0..<length (hd t)]" i t j u] assms
    by (simp add: fill_merged_cells_def)
qed

lemma nearest_above_None:
  "(nearest_above u t j i = None) =
   (\<forall>k<i. \<not> (j < length (t ! k) \<and> \<not> is_empty_cell u (t ! k ! j)))"
proof (induction i)
  case 0 then show ?case by simp
next
  case (Suc i)
  show ?case
  proof (cases "j < length (t ! i) \<and> \<not> is_empty_cell u (t ! i ! j)")
    case True
    then have "nearest_above u t j (Suc i) \<noteq> None"
      by (auto simp: is_empty_cell_def split: option.splits)
    with True show ?thesis by auto
  next
    case False
    with Suc show ?thesis by (auto simp: less_Suc_eq)
  qed
qed

lemma nearest_above_nonempty:
  "nearest_above u t j i = Some v \<Longrightarrow> \<not> is_empty_cell u (Some v)"
  by (induction i) (auto split: if_splits)

lemma is_empty_filled_cell:
  "is_empty_cell u (filled_cell u t i j) =
   (is_empty_cell u (t ! i ! j) \<and> nearest_above u t j i = None)"
proof (cases "nearest_above u t j i")
  case None
  then show ?thesis by (simp add: filled_cell_def is_empty_cell_def strip_def)
next
  case (Some v)
  with nearest_above_nonempty [OF Some] show ?thesis
    by (simp add: filled_cell_def)
qed

lemma filled_cell_idem:
  assumes "i < length t" "j < length (t ! i)" "j < length (hd t)"
  shows "filled_cell u (fill_merged_cells u t) i j = filled_cell u t i j"
proof -
  let ?f = "fill_merged_cells u t"
  have sh: "length ?f = length t" "\<And>k. k < length t \<Longrightarrow> length (?f ! k) = length (t ! k)"
    using fill_merged_cells_shape [of u t] by auto
  have cell: "\<And>k. k < length t \<Longrightarrow> j < length (t ! k) \<Longrightarrow> ?f ! k ! j = filled_cell u t k j"
    using fill_merged_cells_nth assms(3) by simp
  show ?thesis
  proof (cases "is_empty_cell u (filled_cell u t i j)")
    case False
    then show ?thesis
      using cell [OF assms(1,2)] by (simp add: filled_cell_def [of u ?f])
  next
    case True
    then have e: "is_empty_cell u (t ! i ! j)" and n: "nearest_above u t j i = None"
      by (simp_all add: is_empty_filled_cell)
    have "\<forall>k<i. \<not> (j < length (?f ! k) \<and> \<not> is_empty_cell u (?f ! k ! j))"
    proof (intro allI impI)
      fix k assume k: "k < i"
      then have kt: "k < length t" using assms(1) by simp
      show "\<not> (j < length (?f ! k) \<and> \<not> is_empty_cell u (?f ! k ! j))"
      proof (cases "j < length (t ! k)")
        case False
        then show ?thesis using sh(2) [OF kt] by simp
      next
        case jk: True
        have "is_empty_cell u (t ! k ! j)"
          using n k jk by (auto simp: nearest_above_None)
        moreover have "nearest_above u t j k = None"
          using n k by (auto simp: nearest_above_None)
        ultimately show ?thesis
          using cell [OF kt jk] by (simp add: is_empty_filled_cell)
      qed
    qed
    then have "nearest_above u ?f j i = None"
      by (simp add: nearest_above_None)
    moreover have "is_empty_cell u (?f ! i ! j)"
      using True cell [OF assms(1,2)] by simp
    ultimately show ?thesis
      using e n by (simp add: filled_cell_def)
  qed
qed

lemma hd_fill_merged_cells:
  assumes "t \<noteq> []"
  shows "length (hd (fill_merged_cells u t)) = length (hd t)"
proof -
  have "0 < length t" using assms by simp
  moreover have "fill_merged_cells u t \<noteq> []"
    using fill_merged_cells_shape [of u t] assms by auto
  ultimately show ?thesis
    using fill_merged_cells_shape [of u t] assms by (simp add: hd_conv_nth)
qed

lemma fill_merged_cells_idem: "fill_merged_cells u (fill_merged_cells u t) = fill_merged_cells u t"
proof (cases "t = []")
  case True
  then show ?thesis by (simp add: fill_merged_cells_def)
next
  case False
  let ?f = "fill_merged_cells u t"
  have sh: "length ?f = length t" "\<And>k. k < length t \<Longrightarrow> length (?f ! k) = length (t ! k)"
    using fill_merged_cells_shape [of u t] by auto
  have sh2: "length (fill_merged_cells u ?f) = length ?f"
     "\<And>k. k < length ?f \<Longrightarrow> length (fill_merged_cells u ?f ! k) = length (?f ! k)"
    using fill_merged_cells_shape [of u ?f] by auto
  show ?thesis
  proof (rule nth_equalityI)
    show "length (fill_merged_cells u ?f) = length ?f" by (rule sh2)
  next
    fix i assume "i < length (fill_merged_cells u ?f)"
    then have i: "i < length t" "i < length ?f" using sh sh2 by auto
    show "fill_merged_cells u ?f ! i = ?f ! i"
    proof (rule nth_equalityI)
      show "length (fill_merged_cells u ?f ! i) = length (?f ! i)" using sh2(2) i by simp
    next
      fix j assume "j < length (fill_merged_cells u ?f ! i)"
      then have j: "j < length (?f ! i)" "j < length (t ! i)" using sh sh2 i by auto
      have "fill_merged_cells u ?f ! i ! j =
              (if j < length (hd ?f) then filled_cell u ?f i j else ?f ! i ! j)"
        using fill_merged_cells_nth [OF i(2) j(1)] .
      also have "\<dots> = (if j < length (hd t) then filled_cell u t i j else ?f ! i ! j)"
        using filled_cell_idem [OF i(1) j(2)] hd_fill_merged_cells [OF False] by simp
      also have "\<dots> = ?f ! i ! j"
        using fill_merged_cells_nth [OF i(1) j(2)] by simp
      finally show "fill_merged_cells u ?f ! i ! j = ?f ! i ! j" .
    qed
  qed
qed

lemma fill_merged_cells_merged_table:
  "fill_merged_cells ascii_rt merged_table =
     [[Some (str ''h''), Some []],
      [Some (str ''h''), Some (str ''x'')],
      [Some (str ''h''), Some (str ''x'')],
      [Some (str ''h'')]]"
  by (simp add: fill_merged_cells_def merged_table_def ascii_rt_def str_def is_empty_cell_def
        strip_def or_empty_def upt_rec [of 0] Let_def)


text \<open>
  What does hold of every table: filling twice gives the same table as filling once, a
  fill pass keeps the number of rows and the length of every row, and in every column
  that the first row has, each empty or absent cell is replaced by the nearest
  non-empty value above it in that column, or by the empty string when there is none
  above; a non-empty cell is unchanged.
\<close>

lemma fill_merged_cells_idempotent_fills_columns:
  "fill_merged_cells u (fill_merged_cells u t) = fill_merged_cells u t \<and>
   length (fill_merged_cells u t) = length t \<and>
   (\<forall>i<length t.
      length (fill_merged_cells u t ! i) = length (t ! i) \<and>
      (\<forall>j<length (t ! i).
         j < length (hd t) \<longrightarrow> fill_merged_cells u t ! i ! j = filled_cell u t i j))"
  using fill_merged_cells_idem [of u t] fill_merged_cells_shape [of u t]
    fill_merged_cells_nth [of _ t _ u]
  by simp

lemma fill_merged_cells_merged_table_cell:
  "2 < length merged_table \<and> 1 < length (merged_table ! 2) \<and> 1 < length (hd merged_table) \<and>
   is_empty_cell ascii_rt (merged_table ! 2 ! 1) \<and>
   fill_merged_cells ascii_rt merged_table ! 2 ! 1 = filled_cell ascii_rt merged_table 2 1 \<and>
   filled_cell ascii_rt merged_table 2 1 = Some (str ''x'')"
proof -
  have h: "2 < length merged_table" "1 < length (merged_table ! 2)" "1 < length (hd merged_table)"
    by (simp_all add: merged_table_def)
  have e: "is_empty_cell ascii_rt (merged_table ! 2 ! 1)"
    by (simp add: merged_table_def is_empty_cell_def)
  have v: "filled_cell ascii_rt merged_table 2 1 = Some (str ''x'')"
    by (simp add: filled_cell_def merged_table_def is_empty_cell_def numeral_2_eq_2 str_def
          strip_def ascii_rt_def)
  from fill_merged_cells_idempotent_fills_columns [of ascii_rt merged_table] h
  have "fill_merged_cells ascii_rt merged_table ! 2 ! 1 = filled_cell ascii_rt merged_table 2 1"
    by blast
  with h e v show ?thesis by simp
qed

section \<open>Range validator: the request (validators.py)\<close>

text \<open>
  A path is the list of the parts of an absolute \<open>Path\<close>. What \<open>pikepdf.open\<close>
  raises is caught by one of the four \<open>except\<close> clauses of the validator; the last two
  keep \<open>str(e)\<close>.
\<close>

type_synonym path = "pystr list"

datatype open_error =
  FileNotFoundError | PermissionError | PdfError pystr | OtherException pystr

datatype error_kind =
  FILE_NOT_FOUND | PERMISSION_DENIED | INVALID_PDF | INVALID_PAGE_RANGE |
  PAGE_LIMIT_EXCEEDED | IMAGE_LIMIT_EXCEEDED

text \<open>
  The messages are f-strings; a message is modelled by its template and the values
  that are formatted into it, in the order of their first use.
\<close>

datatype message =
  StartOutOfRange int int
| EndBeforeStart int int int int
| PageCountExceeds int int int
| ImageCountExceeds int int
| FileNotFound path
| PermissionDenied path
| InvalidPdf pystr
| ValidationFailed pystr

record validation_result =
  valid :: bool
  error :: "error_kind option"
  message :: "message option"
  total_pages :: "int option"
  total_images :: "int option"
  suggested_ranges :: "suggested_range list option"

text \<open>\<open>ValidationResult(valid=..., ...)\<close>: the fields that are not given default to \<open>None\<close>.\<close>

definition validation_error :: "error_kind \<Rightarrow> message \<Rightarrow> validation_result" where
  "validation_error e m =
     \<lparr>valid = False, error = Some e, message = Some m, total_pages = None,
      total_images = None, suggested_ranges = None\<rparr>"

text \<open>\<open>end_page or total_pages\<close>: \<open>None\<close> and 0 are falsy.\<close>

definition or_total :: "int option \<Rightarrow> int \<Rightarrow> int" where
  "or_total end_p total_pgs = (case end_p of None \<Rightarrow> total_pgs | Some e \<Rightarrow> (if e = 0 then total_pgs else e))"

text \<open>
  The loop \<open>for page_num in range(start_page - 1, actual_end)\<close> that counts the images
  of the requested pages, from \<open>page_num\<close> on; \<open>None\<close> when \<open>doc.pages[page_num]\<close>
  raises.
\<close>

function count_images :: "pikepdf_doc \<Rightarrow> int \<Rightarrow> int \<Rightarrow> int \<Rightarrow> int option" where
  "count_images doc actual_end page_num total_imgs =
     (if page_num < actual_end then
        if page_num \<ge> int (length doc) then Some total_imgs
        else
          case pages_getitem doc page_num of
            None \<Rightarrow> None
          | Some page_images \<Rightarrow>
              count_images doc actual_end (page_num + 1) (total_imgs + int page_images)
      else Some total_imgs)"
  by pat_completeness auto
termination
  by (relation "measure (\<lambda>(doc, actual_end, page_num, total_imgs). nat (actual_end - page_num))")
     auto

declare count_images.simps [simp del]

text \<open>
  \<open>validate_pdf_read_request\<close>. The first argument after the configuration is what
  \<open>pikepdf.open(pdf_path)\<close> does: it raises or returns the document. An IndexError
  raised further on is caught by the last \<open>except\<close> clause; \<open>index_error_text\<close> stands
  for its \<open>str(e)\<close>.
\<close>

definition index_error_text :: pystr where
  "index_error_text = []"

definition validate_pdf_read_request ::
  "config \<Rightarrow> (open_error + pikepdf_doc) \<Rightarrow> path \<Rightarrow> int \<Rightarrow> int option \<Rightarrow> validation_result" where
  "validate_pdf_read_request cfg opened pdf_path start_p end_p =
     (case opened of
        Inl FileNotFoundError \<Rightarrow> validation_error FILE_NOT_FOUND (FileNotFound pdf_path)
      | Inl PermissionError \<Rightarrow> validation_error PERMISSION_DENIED (PermissionDenied pdf_path)
      | Inl (PdfError e) \<Rightarrow> validation_error INVALID_PDF (InvalidPdf e)
      | Inl (OtherException e) \<Rightarrow> validation_error INVALID_PDF (ValidationFailed e)
      | Inr doc \<Rightarrow>
          let total_pgs = int (length doc) in
          if start_p > total_pgs then
            (validation_error INVALID_PAGE_RANGE (StartOutOfRange start_p total_pgs))
              \<lparr>total_pages := Some total_pgs\<rparr>
          else if end_p \<noteq> None \<and> the end_p < start_p then
            (validation_error INVALID_PAGE_RANGE
               (EndBeforeStart (the end_p) start_p total_pgs (min (start_p + 9) total_pgs)))
              \<lparr>total_pages := Some total_pgs\<rparr>
          else
            let actual_end = min (or_total end_p total_pgs) total_pgs;
                pages = actual_end - start_p + 1;
                max_pages = max_pages_per_request cfg;
                max_images = max_images_per_request cfg
            in
            if pages > max_pages then
              case calculate_suggested_ranges cfg doc start_p actual_end max_pages max_images of
                None \<Rightarrow> validation_error INVALID_PDF (ValidationFailed index_error_text)
              | Some ranges \<Rightarrow>
                  (validation_error PAGE_LIMIT_EXCEEDED (PageCountExceeds pages max_pages total_pgs))
                    \<lparr>total_pages := Some total_pgs, suggested_ranges := Some ranges\<rparr>
            else
              case count_images doc actual_end (start_p - 1) 0 of
                None \<Rightarrow> validation_error INVALID_PDF (ValidationFailed index_error_text)
              | Some imgs \<Rightarrow>
                  if imgs > max_images then
                    case calculate_suggested_ranges cfg doc start_p actual_end max_pages max_images of
                      None \<Rightarrow> validation_error INVALID_PDF (ValidationFailed index_error_text)
                    | Some ranges \<Rightarrow>
                        (validation_error IMAGE_LIMIT_EXCEEDED (ImageCountExceeds imgs max_images))
                          \<lparr>total_pages := Some total_pgs, total_images := Some imgs,
                           suggested_ranges := Some ranges\<rparr>
                  else
                    \<lparr>valid = True, error = None, message = None, total_pages = None,
                     total_images = None, suggested_ranges = None\<rparr>)"

text \<open>The number of images on the pages \<open>start_p\<close> to \<open>actual_end\<close> (1-indexed, inclusive).\<close>

definition images_on_pages :: "pikepdf_doc \<Rightarrow> int \<Rightarrow> int \<Rightarrow> int" where
  "images_on_pages doc start_p actual_end =
     sum_list (map int (take (nat (actual_end - (start_p - 1))) (drop (nat (start_p - 1)) doc)))"

lemma count_range_images_returns:
  "0 \<le> page_num \<Longrightarrow>
   \<exists>res. count_range_images doc max_images current_start current_end page_num
           current_images final_end = Some res"
proof (induction doc max_images current_start current_end page_num current_images final_end
       rule: count_range_images.induct)
  case (1 doc max_images current_start current_end page_num current_images final_end)
  show ?case
  proof (cases "page_num < current_end \<and> \<not> page_num \<ge> int (length doc)")
    case False
    then show ?thesis
      by (auto simp: count_range_images.simps [of _ _ _ _ page_num])
  next
    case True
    have g: "pages_getitem doc page_num = Some (doc ! nat page_num)"
      using True "1.prems" by (simp add: pages_getitem_in_range)
    show ?thesis
    proof (cases "current_images + int (doc ! nat page_num) > max_images")
      case over: True
      with True g show ?thesis
        by (auto simp: count_range_images.simps [of _ _ _ _ page_num])
    next
      case under: False
      have "\<exists>res. count_range_images doc max_images current_start current_end (page_num + 1)
                    (current_images + int (doc ! nat page_num)) (page_num + 1) = Some res"
        using "1.IH" [OF _ _ g] True under "1.prems" by auto
      then show ?thesis
        using True g under by (simp add: count_range_images.simps [of _ _ _ _ page_num])
    qed
  qed
qed

lemma suggest_loop_returns:
  "1 \<le> current_start \<Longrightarrow>
   \<exists>rs. suggest_loop cfg doc end_p max_pages max_images current_start ranges = Some rs"
proof (induction cfg doc end_p max_pages max_images current_start ranges
       rule: suggest_loop.induct)
  case (1 cfg doc end_p max_pages max_images current_start ranges)
  show ?case
  proof (cases "current_start \<le> end_p \<and> int (length ranges) < max_suggested_ranges cfg")
    case False
    then show ?thesis
      by (auto simp: suggest_loop.simps [of _ _ _ _ _ current_start])
  next
    case True
    obtain imgs fe where
      c: "count_range_images doc max_images current_start
            (min (current_start + max_pages - 1) end_p) (current_start - 1) 0 current_start
          = Some (imgs, fe)"
      using count_range_images_returns [of "current_start - 1" doc max_images current_start
              "min (current_start + max_pages - 1) end_p" 0 current_start] "1.prems"
      by auto
    from c have "current_start \<le> fe"
      by (rule count_range_images_final_end) simp_all
    then have "1 \<le> fe + 1" using "1.prems" by simp
    from "1.IH" [OF True refl c refl this] show ?thesis
      apply (subst suggest_loop.simps)
      using True c
      apply (simp only: if_True Let_def option.case prod.case simp_thms)
      done
  qed
qed

lemma count_images_sum:
  "0 \<le> page_num \<Longrightarrow> actual_end \<le> int (length doc) \<Longrightarrow>
   count_images doc actual_end page_num total_imgs =
     Some (total_imgs +
           sum_list (map int (take (nat (actual_end - page_num)) (drop (nat page_num) doc))))"
proof (induction doc actual_end page_num total_imgs rule: count_images.induct)
  case (1 doc actual_end page_num total_imgs)
  show ?case
  proof (cases "page_num < actual_end")
    case False
    then show ?thesis
      by (simp add: count_images.simps [of _ _ page_num])
  next
    case True
    then have lt: "page_num < int (length doc)" "nat page_num < length doc"
      using "1.prems" by auto
    have g: "pages_getitem doc page_num = Some (doc ! nat page_num)"
      using lt "1.prems" by (simp add: pages_getitem_in_range)
    have n: "nat (actual_end - page_num) = Suc (nat (actual_end - (page_num + 1)))"
            "nat (page_num + 1) = Suc (nat page_num)"
      using True "1.prems" by auto
    have "take (nat (actual_end - page_num)) (drop (nat page_num) doc) =
          doc ! nat page_num #
          take (nat (actual_end - (page_num + 1))) (drop (nat (page_num + 1)) doc)"
      unfolding n using Cons_nth_drop_Suc [OF lt(2), symmetric] by simp
    moreover have "count_images doc actual_end (page_num + 1) (total_imgs + int (doc ! nat page_num)) =
      Some (total_imgs + int (doc ! nat page_num) +
            sum_list (map int (take (nat (actual_end - (page_num + 1)))
                                 (drop (nat (page_num + 1)) doc))))"
      using "1.IH" [OF True _ g] lt "1.prems" by simp
    ultimately show ?thesis
      using True lt g by (simp add: count_images.simps [of _ _ page_num])
  qed
qed

text \<open>
  Claim C8. When the start page is within the document and the end page is absent or
  not before the start page, the validator reports no range error. It goes on with the
  effective end \<open>min(end_page or total_pages, total_pages)\<close>, that is the last page
  when the end page is absent (or 0) and the smaller of the end page and the last page
  otherwise, and with the page count \<open>effective end - start_page + 1\<close>: its result is
  the outcome of the two limit checks on these values. For a 1-indexed start page no
  page lookup raises: the request then fails with PAGE_LIMIT_EXCEEDED exactly when
  that page count exceeds the page limit, and otherwise it is valid exactly when the
  images on the pages up to the effective end are within the image limit.
\<close>

theorem validate_clamps_end_page:
  assumes "start_p \<le> int (length doc)" and "end_p = None \<or> start_p \<le> the end_p"
  shows
    "let total_pgs = int (length doc);
         actual_end = (case end_p of
                         None \<Rightarrow> total_pgs
                       | Some e \<Rightarrow> if e = 0 then total_pgs else min e total_pgs);
         pages = actual_end - start_p + 1;
         max_pages = max_pages_per_request cfg;
         max_images = max_images_per_request cfg;
         r = validate_pdf_read_request cfg (Inr doc) pdf_path start_p end_p
     in error r \<noteq> Some INVALID_PAGE_RANGE \<and>
        r =
          (if pages > max_pages then
             case calculate_suggested_ranges cfg doc start_p actual_end max_pages max_images of
               None \<Rightarrow> validation_error INVALID_PDF (ValidationFailed index_error_text)
             | Some ranges \<Rightarrow>
                 (validation_error PAGE_LIMIT_EXCEEDED (PageCountExceeds pages max_pages total_pgs))
                   \<lparr>total_pages := Some total_pgs, suggested_ranges := Some ranges\<rparr>
           else
             case count_images doc actual_end (start_p - 1) 0 of
               None \<Rightarrow> validation_error INVALID_PDF (ValidationFailed index_error_text)
             | Some imgs \<Rightarrow>
                 if imgs > max_images then
                   case calculate_suggested_ranges cfg doc start_p actual_end max_pages max_images of
                     None \<Rightarrow> validation_error INVALID_PDF (ValidationFailed index_error_text)
                   | Some ranges \<Rightarrow>
                       (validation_error IMAGE_LIMIT_EXCEEDED (ImageCountExceeds imgs max_images))
                         \<lparr>total_pages := Some total_pgs, total_images := Some imgs,
                          suggested_ranges := Some ranges\<rparr>
                 else
                   \<lparr>valid = True, error = None, message = None, total_pages = None,
                    total_images = None, suggested_ranges = None\<rparr>) \<and>
        (error r = Some PAGE_LIMIT_EXCEEDED \<longrightarrow>
           max_pages < pages \<and>
           message r = Some (PageCountExceeds pages max_pages total_pgs)) \<and>
        (max_pages < pages \<longrightarrow> \<not> valid r) \<and>
        (1 \<le> start_p \<longrightarrow>
           (max_pages < pages \<longrightarrow>
              error r = Some PAGE_LIMIT_EXCEEDED \<and>
              message r = Some (PageCountExceeds pages max_pages total_pgs) \<and>
              suggested_ranges r =
                calculate_suggested_ranges cfg doc start_p actual_end max_pages max_images) \<and>
           (pages \<le> max_pages \<longrightarrow>
              valid r = (images_on_pages doc start_p actual_end \<le> max_images) \<and>
              (\<not> valid r \<longrightarrow>
                 error r = Some IMAGE_LIMIT_EXCEEDED \<and>
                 total_images r = Some (images_on_pages doc start_p actual_end) \<and>
                 suggested_ranges r =
                   calculate_suggested_ranges cfg doc start_p actual_end max_pages max_images)))"
proof -
  define total_pgs where "total_pgs = int (length doc)"
  define actual_end where
    "actual_end = (case end_p of
                     None \<Rightarrow> total_pgs
                   | Some e \<Rightarrow> if e = 0 then total_pgs else min e total_pgs)"
  define pages where "pages = actual_end - start_p + 1"
  define max_pages where "max_pages = max_pages_per_request cfg"
  define max_images where "max_images = max_images_per_request cfg"
  define r where "r = validate_pdf_read_request cfg (Inr doc) pdf_path start_p end_p"
  note defs = total_pgs_def actual_end_def pages_def max_pages_def max_images_def
  have clamp: "min (or_total end_p total_pgs) total_pgs = actual_end"
    by (simp add: or_total_def actual_end_def split: option.splits)
  have guards: "\<not> start_p > total_pgs" "\<not> (end_p \<noteq> None \<and> the end_p < start_p)"
    using assms by (auto simp: total_pgs_def)
  have r_eq: "r =
     (if pages > max_pages then
        case calculate_suggested_ranges cfg doc start_p actual_end max_pages max_images of
          None \<Rightarrow> validation_error INVALID_PDF (ValidationFailed index_error_text)
        | Some ranges \<Rightarrow>
            (validation_error PAGE_LIMIT_EXCEEDED (PageCountExceeds pages max_pages total_pgs))
              \<lparr>total_pages := Some total_pgs, suggested_ranges := Some ranges\<rparr>
      else
        case count_images doc actual_end (start_p - 1) 0 of
          None \<Rightarrow> validation_error INVALID_PDF (ValidationFailed index_error_text)
        | Some imgs \<Rightarrow>
            if imgs > max_images then
              case calculate_suggested_ranges cfg doc start_p actual_end max_pages max_images of
                None \<Rightarrow> validation_error INVALID_PDF (ValidationFailed index_error_text)
              | Some ranges \<Rightarrow>
                  (validation_error IMAGE_LIMIT_EXCEEDED (ImageCountExceeds imgs max_images))
                    \<lparr>total_pages := Some total_pgs, total_images := Some imgs,
                     suggested_ranges := Some ranges\<rparr>
            else
              \<lparr>valid = True, error = None, message = None, total_pages = None,
               total_images = None, suggested_ranges = None\<rparr>)"
    using guards
    unfolding r_def validate_pdf_read_request_def pages_def max_pages_def max_images_def
      clamp [symmetric] total_pgs_def
    by (simp only: sum.case Let_def if_False)
  have no_range_error: "error r \<noteq> Some INVALID_PAGE_RANGE"
    unfolding r_eq by (simp add: validation_error_def split: option.splits)
  have page_limit: "error r = Some PAGE_LIMIT_EXCEEDED \<longrightarrow>
           max_pages < pages \<and>
           message r = Some (PageCountExceeds pages max_pages total_pgs)"
    unfolding r_eq by (simp add: validation_error_def split: option.splits)
  have rejected: "max_pages < pages \<longrightarrow> \<not> valid r"
    unfolding r_eq by (simp add: validation_error_def split: option.splits)
  have limits: "(max_pages < pages \<longrightarrow>
              error r = Some PAGE_LIMIT_EXCEEDED \<and>
              message r = Some (PageCountExceeds pages max_pages total_pgs) \<and>
              suggested_ranges r =
                calculate_suggested_ranges cfg doc start_p actual_end max_pages max_images) \<and>
           (pages \<le> max_pages \<longrightarrow>
              valid r = (images_on_pages doc start_p actual_end \<le> max_images) \<and>
              (\<not> valid r \<longrightarrow>
                 error r = Some IMAGE_LIMIT_EXCEEDED \<and>
                 total_images r = Some (images_on_pages doc start_p actual_end) \<and>
                 suggested_ranges r =
                   calculate_suggested_ranges cfg doc start_p actual_end max_pages max_images))"
    if one: "1 \<le> start_p"
  proof -
    obtain rs where rs: "calculate_suggested_ranges cfg doc start_p actual_end max_pages max_images
                         = Some rs"
      using suggest_loop_returns [OF one, of cfg doc actual_end max_pages max_images "[]"]
      by (auto simp: calculate_suggested_ranges_def)
    have "actual_end \<le> int (length doc)"
      by (simp add: actual_end_def total_pgs_def split: option.splits)
    then have ci: "count_images doc actual_end (start_p - 1) 0 =
                   Some (images_on_pages doc start_p actual_end)"
      using count_images_sum [of "start_p - 1" actual_end doc 0] one
      by (simp add: images_on_pages_def)
    show ?thesis
      unfolding r_eq rs ci by (simp add: validation_error_def)
  qed
  show ?thesis
    unfolding Let_def
    unfolding r_def [symmetric] total_pgs_def [symmetric]
    unfolding actual_end_def [symmetric]
    unfolding pages_def [symmetric] max_pages_def [symmetric] max_images_def [symmetric]
    using no_range_error r_eq page_limit rejected limits by blast
qed

text \<open>
  The scenario of the specification: a document of 15 pages and the request for the
  pages 10 to 19. The effective end is 15 and the page count 6, as the message shows
  under a page limit of 5; under the default limit of 10 the request is valid. A
  request for the pages 10 to 12 keeps its end: the page count is 3.
\<close>

theorem validate_clamps_end_page_witness:
  "(10::int) \<le> int (length (replicate 15 (0::nat))) \<and> (10::int) \<le> the (Some 19) \<and>
   (10::int) \<le> the (Some 12) \<and>
   error (validate_pdf_read_request (default_config\<lparr>max_pages_per_request := 5\<rparr>)
            (Inr (replicate 15 0)) [] 10 (Some 19)) = Some PAGE_LIMIT_EXCEEDED \<and>
   message (validate_pdf_read_request (default_config\<lparr>max_pages_per_request := 5\<rparr>)
            (Inr (replicate 15 0)) [] 10 (Some 19)) = Some (PageCountExceeds 6 5 15) \<and>
   message (validate_pdf_read_request (default_config\<lparr>max_pages_per_request := 2\<rparr>)
            (Inr (replicate 15 0)) [] 10 (Some 12)) = Some (PageCountExceeds 3 2 15) \<and>
   valid (validate_pdf_read_request default_config (Inr (replicate 15 0)) [] 10 (Some 19))"
proof -
  have h: "(10::int) \<le> int (length (replicate 15 (0::nat)))"
    "Some (19::int) = None \<or> (10::int) \<le> the (Some 19)"
    by simp_all
  have h2: "Some (12::int) = None \<or> (10::int) \<le> the (Some 12)"
    by simp
  have i: "images_on_pages (replicate 15 0) 10 15 = 0"
    by (simp add: images_on_pages_def sum_list_replicate)
  from validate_clamps_end_page [OF h, of "default_config\<lparr>max_pages_per_request := 5\<rparr>" "[]",
         unfolded Let_def, THEN conjunct2, THEN conjunct2, THEN conjunct2, THEN conjunct2]
  have a: "error (validate_pdf_read_request (default_config\<lparr>max_pages_per_request := 5\<rparr>)
            (Inr (replicate 15 0)) [] 10 (Some 19)) = Some PAGE_LIMIT_EXCEEDED \<and>
   message (validate_pdf_read_request (default_config\<lparr>max_pages_per_request := 5\<rparr>)
            (Inr (replicate 15 0)) [] 10 (Some 19)) = Some (PageCountExceeds 6 5 15)"
    by (simp add: Let_def default_config_def)
  from validate_clamps_end_page [OF h(1) h2,
         of "default_config\<lparr>max_pages_per_request := 2\<rparr>" "[]",
         unfolded Let_def, THEN conjunct2, THEN conjunct2, THEN conjunct2, THEN conjunct2]
  have c: "message (validate_pdf_read_request (default_config\<lparr>max_pages_per_request := 2\<rparr>)
            (Inr (replicate 15 0)) [] 10 (Some 12)) = Some (PageCountExceeds 3 2 15)"
    by (simp add: Let_def default_config_def)
  from validate_clamps_end_page [OF h, of default_config "[]",
         unfolded Let_def, THEN conjunct2, THEN conjunct2, THEN conjunct2, THEN conjunct2] i
  have b: "valid (validate_pdf_read_request default_config (Inr (replicate 15 0)) [] 10 (Some 19))"
    by (simp add: Let_def default_config_def)
  from a b c show ?thesis
    by simp
qed

section \<open>Corruption detector (text_validator.py)\<close>

text \<open>
  \<open>re.findall(pattern, sample)\<close> is used only through the number of its matches. It
  scans the sample from the left: where the pattern matches, the match is counted and
  the scan goes on behind it; elsewhere the scan moves one character on. \<open>matcher s\<close>
  is the length of the match of the pattern at the start of \<open>s\<close>, if there is one; no
  pattern of this file matches the empty string.
\<close>

fun findall_count :: "(pystr \<Rightarrow> nat option) \<Rightarrow> pystr \<Rightarrow> nat" where
  "findall_count matcher [] = 0"
| "findall_count matcher (c # s) =
     (case matcher (c # s) of
        None \<Rightarrow> findall_count matcher s
      | Some n \<Rightarrow> Suc (findall_count matcher (drop (n - 1) s)))"

text \<open>
  The pattern \<open>\(cid:\d+\)\<close>: the five characters \<open>(cid:\<close>, then one or more
  decimal digits, as many as possible such that \<open>)\<close> follows them.
\<close>

definition cid_match :: "python_rt \<Rightarrow> pystr \<Rightarrow> nat option" where
  "cid_match u s =
     (if take 5 s = [40, 99, 105, 100, 58] then
        let rest = drop 5 s;
            n = length (takeWhile (isdecimal u) rest)
        in case filter (\<lambda>k. k < length rest \<and> rest ! k = 41) (rev [1..<Suc n]) of
             [] \<Rightarrow> None
           | k # _ \<Rightarrow> Some (5 + k + 1)
      else None)"

text \<open>
  The patterns \<open>[...]{k,}\<close> and \<open>(?:[...]+){k,}\<close> over a character class: both match
  the longest run of characters of the class, when it has at least \<open>k\<close> characters.
\<close>

definition run_match :: "nat list \<Rightarrow> nat \<Rightarrow> pystr \<Rightarrow> nat option" where
  "run_match cls k s =
     (let n = length (takeWhile (\<lambda>c. c \<in> set cls) s) in if k \<le> n then Some n else None)"

text \<open>The character sets of the source, as code points in the order of the source.\<close>

definition known_corrupted_chars :: "nat list" where
  "known_corrupted_chars =
     [8249, 338, 217, 218, 219, 220, 241, 251, 253, 222] @
     [197, 198, 199, 200, 201, 202, 203, 206, 207] @
     [209, 210, 211, 212, 213, 214, 223, 224, 225, 226] @
     [227, 228, 229, 230, 231, 232, 233, 234, 235, 236] @
     [237, 238, 239, 240, 242, 243, 244, 245, 246, 248] @
     [249, 250, 221, 254, 255, 161, 162, 163, 164, 165] @
     [166, 167, 168, 169, 170, 171, 172, 174, 175, 176] @
     [177, 178, 179, 180, 181, 182, 183, 184, 185, 186] @
     [187, 188, 189, 190, 191, 192, 193, 194, 195, 196]"

definition valid_chars :: "nat list" where
  "valid_chars = [46, 44, 33, 63, 40, 41, 91, 93, 123, 125, 34, 39, 10, 9, 32, 45, 58, 59]"

definition suspicious_ascii :: "nat list" where
  "suspicious_ascii = [35, 36, 37, 38, 42, 43, 47, 60, 61, 62, 64, 92, 94, 96, 124, 126]"

definition mixed_special_class :: "nat list" where
  "mixed_special_class = suspicious_ascii @ [39, 34, 40, 41]"

text \<open>The body of the loop \<open>for char in sample\<close>: whether the character is counted.\<close>

definition counts_as_corrupted :: "nat \<Rightarrow> bool" where
  "counts_as_corrupted char_code =
     (if char_code \<le> 127 then char_code \<in> set suspicious_ascii
      else if 44032 \<le> char_code \<and> char_code \<le> 55203 then False
      else if 4352 \<le> char_code \<and> char_code \<le> 4607 then False
      else if 12593 \<le> char_code \<and> char_code \<le> 12686 then False
      else if 19968 \<le> char_code \<and> char_code \<le> 40959 then False
      else if 192 \<le> char_code \<and> char_code \<le> 255 then char_code \<in> set known_corrupted_chars
      else if char_code \<in> set valid_chars then False
      else True)"

text \<open>
  \<open>is_text_corrupted\<close>. A float is modelled by the rational it denotes. The sample has
  at most 500 characters, and for such a length the double \<open>sample_len * 0.05\<close>
  compares with an integer as the exact product does.
\<close>

definition is_text_corrupted :: "python_rt \<Rightarrow> config \<Rightarrow> pystr \<Rightarrow> rat option \<Rightarrow> bool \<times> rat" where
  "is_text_corrupted u cfg text_arg threshold_arg =
     (let threshold = (case threshold_arg of None \<Rightarrow> corruption_threshold cfg | Some t \<Rightarrow> t) in
      if text_arg = [] \<or> length (strip u text_arg) = 0 then (False, 0)
      else
        let sample = take 500 text_arg;
            sample_len = length sample
        in
        if sample_len = 0 then (False, 0)
        else if findall_count (cid_match u) sample > 3 then (True, 1)
        else
          let known_corrupted_count =
                length (filter (\<lambda>c. c \<in> set known_corrupted_chars) sample)
          in
          if of_nat known_corrupted_count > of_nat sample_len * (5 / 100 :: rat)
          then (True, truediv u (int known_corrupted_count) (int sample_len))
          else if findall_count (run_match suspicious_ascii 3) sample \<ge> 3 then (True, 8 / 10)
          else if findall_count (run_match mixed_special_class 5) sample \<ge> 2 then (True, 7 / 10)
          else
            let corrupted_chars = length (filter counts_as_corrupted sample);
                corruption_ratio = truediv u (int corrupted_chars) (int sample_len)
            in (corruption_ratio > threshold, corruption_ratio))"

text \<open>
  \<open>check_pdf_corruption_with_pdfminer\<close>, given the text that pdfminer wrote to stderr
  while it extracted the page (an exception of the extraction is logged and dropped).
  \<open>warnings.count("Ignoring")\<close> counts the occurrences from the left, without overlap.
\<close>

definition str_count :: "pystr \<Rightarrow> pystr \<Rightarrow> nat" where
  "str_count sub s =
     findall_count (\<lambda>t. if take (length sub) t = sub then Some (length sub) else None) s"

definition check_pdf_corruption_with_pdfminer :: "pystr \<Rightarrow> bool \<times> nat" where
  "check_pdf_corruption_with_pdfminer warnings =
     (let warning_count = str_count (str ''Ignoring'') warnings;
          is_corrupted = (warning_count \<ge> 3)
      in (is_corrupted, warning_count))"

lemma is_text_corrupted_ratio_any_threshold:
  "snd (is_text_corrupted u cfg text_arg th1) = snd (is_text_corrupted u cfg text_arg th2)"
  by (simp add: is_text_corrupted_def Let_def)

lemma is_text_corrupted_clean_mono:
  assumes "t1 \<le> t2" and "\<not> fst (is_text_corrupted u cfg text_arg (Some t1))"
  shows "\<not> fst (is_text_corrupted u cfg text_arg (Some t2))"
  using assms by (auto simp: is_text_corrupted_def Let_def split: if_splits)

text \<open>The scenario of the specification: four glyph placeholders give \<open>(True, 1.0)\<close>.\<close>

lemma is_text_corrupted_cid_example:
  "is_text_corrupted ascii_rt default_config (str ''(cid:3)(cid:4)(cid:5)(cid:6)'') None = (True, 1)"
  by code_simp

lemma is_text_corrupted_hashes:
  "is_text_corrupted ascii_rt default_config (str ''#a#a#'') (Some t) = (3 / 5 > t, 3 / 5)"
  by (simp add: is_text_corrupted_def Let_def str_def strip_def ascii_rt_def cid_match_def
        run_match_def suspicious_ascii_def mixed_special_class_def known_corrupted_chars_def
        counts_as_corrupted_def)

text \<open>
  Claim C6 as stated says that raising the threshold never turns a corrupted sample
  into a clean one. The sample \<open>#a#a#\<close> has the ratio 3/5: it is corrupted at the
  threshold 0.3 and clean at the threshold 0.9.
\<close>

theorem is_text_corrupted_flip_counterexample:
  "(3 / 10 :: rat) \<le> 9 / 10 \<and>
   fst (is_text_corrupted ascii_rt default_config (str ''#a#a#'') (Some (3 / 10))) \<and>
   \<not> fst (is_text_corrupted ascii_rt default_config (str ''#a#a#'') (Some (9 / 10)))"
  by (simp add: is_text_corrupted_hashes)

text \<open>
  Claim C6, amended. For a fixed text the returned ratio is the same for every
  threshold, and for thresholds \<open>t1 \<le> t2\<close> a text that is classified clean at \<open>t1\<close>
  is classified clean at \<open>t2\<close>: raising the threshold never turns a clean sample into a
  corrupted one. This holds for the whole function, so also at the ratio fallback.
\<close>

theorem is_text_corrupted_threshold:
  "snd (is_text_corrupted u cfg text_arg (Some t1)) = snd (is_text_corrupted u cfg text_arg (Some t2)) \<and>
   (t1 \<le> t2 \<longrightarrow> \<not> fst (is_text_corrupted u cfg text_arg (Some t1)) \<longrightarrow>
      \<not> fst (is_text_corrupted u cfg text_arg (Some t2)))"
  using is_text_corrupted_ratio_any_threshold [of u cfg text_arg "Some t1" "Some t2"]
    is_text_corrupted_clean_mono [of t1 t2 u cfg text_arg]
  by blast

theorem is_text_corrupted_threshold_witness:
  "(7 / 10 :: rat) \<le> 9 / 10 \<and>
   \<not> fst (is_text_corrupted ascii_rt default_config (str ''#a#a#'') (Some (7 / 10))) \<and>
   \<not> fst (is_text_corrupted ascii_rt default_config (str ''#a#a#'') (Some (9 / 10))) \<and>
   snd (is_text_corrupted ascii_rt default_config (str ''#a#a#'') (Some (7 / 10))) = 3 / 5 \<and>
   snd (is_text_corrupted ascii_rt default_config (str ''#a#a#'') (Some (9 / 10))) = 3 / 5"
proof -
  have h: "(7 / 10 :: rat) \<le> 9 / 10"
    "\<not> fst (is_text_corrupted ascii_rt default_config (str ''#a#a#'') (Some (7 / 10)))"
    by (simp_all add: is_text_corrupted_hashes)
  from is_text_corrupted_threshold [of ascii_rt default_config "str ''#a#a#''" "7 / 10" "9 / 10"] h
  have "\<not> fst (is_text_corrupted ascii_rt default_config (str ''#a#a#'') (Some (9 / 10)))"
    by blast
  with h show ?thesis
    by (simp add: is_text_corrupted_hashes)
qed

section \<open>Page pipeline (pdf_tools.py)\<close>

subsection \<open>Requests, responses and the world outside\<close>

datatype extraction_mode = Auto | Text_only | Image_only

text \<open>
  The arguments of a call, with the defaults already filled in: \<open>Path(file_path)\<close> is
  given by whether it is absolute and by its parts, the extraction mode is still a
  string. \<open>ReadPDFInput(**arguments)\<close> checks the bounds of the fields, the extraction
  mode and \<open>end_page >= start_page\<close>; \<open>None\<close> stands for the ValidationError it raises.
\<close>

record arguments =
  arg_is_absolute :: bool
  arg_parts :: path
  arg_start_page :: int
  arg_end_page :: "int option"
  arg_filter_header_footer :: bool
  arg_crop_images :: bool
  arg_max_image_dimension :: int
  arg_extraction_mode :: pystr
  arg_page_image_dpi :: int

record read_pdf_input =
  is_absolute :: bool
  parts :: path
  in_start_page :: int
  in_end_page :: "int option"
  filter_header_footer :: bool
  crop_images :: bool
  max_image_dimension :: int
  extraction_mode :: extraction_mode
  page_image_dpi :: int

definition validate_extraction_mode :: "pystr \<Rightarrow> extraction_mode option" where
  "validate_extraction_mode v =
     (if v = str ''auto'' then Some Auto
      else if v = str ''text_only'' then Some Text_only
      else if v = str ''image_only'' then Some Image_only
      else None)"

definition parse_input :: "arguments \<Rightarrow> read_pdf_input option" where
  "parse_input a =
     (if arg_start_page a \<ge> 1 \<and>
         (case arg_end_page a of None \<Rightarrow> True | Some e \<Rightarrow> e \<ge> 1) \<and>
         28 \<le> arg_max_image_dimension a \<and> arg_max_image_dimension a \<le> 4096 \<and>
         50 \<le> arg_page_image_dpi a \<and> arg_page_image_dpi a \<le> 300 \<and>
         (case arg_end_page a of None \<Rightarrow> True | Some e \<Rightarrow> \<not> e < arg_start_page a)
      then
        case validate_extraction_mode (arg_extraction_mode a) of
          None \<Rightarrow> None
        | Some m \<Rightarrow>
            Some \<lparr>is_absolute = arg_is_absolute a, parts = arg_parts a,
                  in_start_page = arg_start_page a, in_end_page = arg_end_page a,
                  filter_header_footer = arg_filter_header_footer a,
                  crop_images = arg_crop_images a,
                  max_image_dimension = arg_max_image_dimension a,
                  extraction_mode = m, page_image_dpi = arg_page_image_dpi a\<rparr>
      else None)"

text \<open>
  What the PDF libraries report for one page. The extraction primitives are external:
  a page is given by their results, as the handler holds them after its extraction
  block. \<open>tables\<close> is \<open>tables_with_position\<close> (the tables whose markdown is not empty),
  \<open>text_regions\<close> the result of \<open>extract_non_table_text_regions\<close>,
  \<open>pdfminer_stderr\<close> the text that pdfminer writes to stderr for the page,
  \<open>rendered\<close> the size of the page image when rendering succeeds, and
  \<open>embedded_images\<close> the \<open>top\<close> of each embedded image that the image loop keeps.
\<close>

record page_source =
  extract_text :: "pystr option"
  tables :: "table_info list"
  text_regions :: "text_region list"
  pdfminer_stderr :: pystr
  rendered :: "(int \<times> int) option"
  embedded_images :: "rat list"

text \<open>
  The file system and the libraries. \<open>resolve\<close> is \<open>Path.resolve()\<close>, \<open>None\<close> when
  it raises; \<open>find_similar_pdfs\<close> is the search of file_matcher.py.
\<close>

record world =
  cwd :: path
  resolve :: "path \<Rightarrow> path option"
  path_exists :: "path \<Rightarrow> bool"
  access_read :: "path \<Rightarrow> bool"
  find_similar_pdfs :: "path \<Rightarrow> pystr list"
  pikepdf_open :: "path \<Rightarrow> open_error + pikepdf_doc"
  pdfplumber_open :: "path \<Rightarrow> open_error + page_source list"

text \<open>The calls to the libraries that read the content of the document, as they happen.\<close>

datatype event =
  Validate
| OpenPdfplumber
| OpenPikepdf
| ExtractText int
| ExtractTables int
| ExtractTextRegions int
| PdfminerCheck int
| CharHeuristic int
| RenderPage int
| ExtractImages int

datatype image_format = Jpeg | Png

datatype hint = NotRecommended int rat | Extractable int

record content_block =
  cb_type :: content_type
  cb_content :: "pystr option"

record page_data =
  page_number :: int
  content_blocks :: "content_block list"
  text_corrupted :: "bool option"
  corruption_ratio :: "rat option"
  page_image :: "pystr option"
  page_image_width :: "int option"
  page_image_height :: "int option"
  extractable_char_count :: "int option"
  text_hint :: "hint option"

datatype handler_message =
  FromValidation message
| NotFoundSimilar path "pystr list"
| AccessDenied
| CannotRead path
| PdfNotFound
| PermissionDeniedAccessing
| InvalidOrCorrupted pystr
| ErrorProcessing pystr

record read_pdf_error =
  err_error :: error_kind
  err_message :: handler_message
  err_total_pages :: "int option"
  err_total_images :: "int option"
  err_suggested_ranges :: "suggested_range list option"
  err_suggested_files :: "pystr list option"

record read_pdf_success =
  ok_file_path :: path
  ok_pages :: "page_data list"
  ok_total_pages_read :: int
  ok_total_images :: int

datatype response = Success read_pdf_success | Failure read_pdf_error

definition read_pdf_error :: "error_kind \<Rightarrow> handler_message \<Rightarrow> read_pdf_error" where
  "read_pdf_error e m =
     \<lparr>err_error = e, err_message = m, err_total_pages = None, err_total_images = None,
      err_suggested_ranges = None, err_suggested_files = None\<rparr>"

subsection \<open>Helpers\<close>

text \<open>\<open>sep.join(xs)\<close>\<close>

fun join :: "pystr \<Rightarrow> pystr list \<Rightarrow> pystr" where
  "join sep [] = []"
| "join sep [x] = x"
| "join sep (x # y # ys) = x @ sep @ join sep (y # ys)"

text \<open>The decimal digits of a number, and the placeholder \<open>[IMAGE_n]\<close>.\<close>

function decimal :: "nat \<Rightarrow> pystr" where
  "decimal n = (if n < 10 then [48 + n] else decimal (n div 10) @ [48 + n mod 10])"
  by pat_completeness auto
termination
  by (relation "measure id") auto

declare decimal.simps [simp del]

definition placeholder :: "nat \<Rightarrow> pystr" where
  "placeholder image_index = str ''[IMAGE_'' @ decimal image_index @ str '']''"

text \<open>
  \<open>re.match(r'^-\s*\d+\s*-$', content)\<close> is used as a truth value: whether the content
  is a hyphen, whitespace, one or more digits, whitespace and a hyphen, with an optional
  newline at the very end (which \<open>$\<close> allows).
\<close>

definition hyphen_number_hyphen :: "python_rt \<Rightarrow> pystr \<Rightarrow> bool" where
  "hyphen_number_hyphen u s =
     (2 \<le> length s \<and> hd s = 45 \<and> last s = 45 \<and>
      (let body = butlast (tl s) in
       list_ex (\<lambda>i. list_ex (\<lambda>j.
           i < j \<and> list_all (isspace u) (take i body) \<and>
           list_all (isdecimal u) (take (j - i) (drop i body)) \<and>
           list_all (isspace u) (drop j body))
         [0..<Suc (length body)]) [0..<Suc (length body)]))"

definition is_page_number_separator :: "python_rt \<Rightarrow> pystr \<Rightarrow> bool" where
  "is_page_number_separator u content_str =
     (hyphen_number_hyphen u content_str \<or>
      (content_str \<noteq> [] \<and> last content_str = 10 \<and> hyphen_number_hyphen u (butlast content_str)))"

subsection \<open>One page\<close>

text \<open>What the body of the page loop hands on: the page, the images it adds, its calls.\<close>

record page_outcome =
  page :: page_data
  new_images :: "image_format list"
  events :: "event list"

text \<open>
  The text probe of the mode \<open>image_only\<close>: the extractable character count and the
  hint, with the calls made.
\<close>

definition probe_text ::
  "python_rt \<Rightarrow> config \<Rightarrow> int \<Rightarrow> page_source \<Rightarrow> int option \<times> hint option \<times> event list" where
  "probe_text u cfg page_num src =
     (let page_text = or_empty (extract_text src);
          char_count = int (length (strip u page_text))
      in
      if char_count > 0 then
        let (pdfminer_corrupted, warning_count) =
              check_pdf_corruption_with_pdfminer (pdfminer_stderr src)
        in
        if pdfminer_corrupted then
          (Some char_count,
           Some (NotRecommended char_count (truediv u (int warning_count) 10)),
           [ExtractText page_num, PdfminerCheck page_num])
        else
          let (is_corrupted, ratio) = is_text_corrupted u cfg page_text None in
          (Some char_count,
           Some (if is_corrupted then NotRecommended char_count ratio else Extractable char_count),
           [ExtractText page_num, PdfminerCheck page_num, CharHeuristic page_num])
      else (None, None, [ExtractText page_num]))"

text \<open>\<open>all_text_for_check\<close>: the text of the regions and the markdown of the tables.\<close>

definition all_text_for_check :: "text_region list \<Rightarrow> table_info list \<Rightarrow> pystr" where
  "all_text_for_check regions tables_with_position =
     (let full_text = join (str ''\<newline>\<newline>'') (map region_text regions) in
      if tables_with_position \<noteq> [] then
        let table_texts = join (str ''\<newline>\<newline>'') (map markdown tables_with_position) in
        if full_text \<noteq> [] then full_text @ str ''\<newline>\<newline>'' @ table_texts else table_texts
      else full_text)"

text \<open>
  The corruption check of a page whose text is extracted: pdfminer's warnings first, the
  character heuristic only when pdfminer does not report corruption.
\<close>

definition detect_corruption ::
  "python_rt \<Rightarrow> config \<Rightarrow> int \<Rightarrow> page_source \<Rightarrow> bool \<times> rat \<times> event list" where
  "detect_corruption u cfg page_num src =
     (let (pdfminer_corrupted, warning_count) =
            check_pdf_corruption_with_pdfminer (pdfminer_stderr src)
      in
      if pdfminer_corrupted then
        (True, truediv u (int warning_count) 10, [PdfminerCheck page_num])
      else
        let (text_corrupted, corruption_ratio) =
              is_text_corrupted u cfg (all_text_for_check (text_regions src) (tables src)) None
        in (text_corrupted, corruption_ratio, [PdfminerCheck page_num, CharHeuristic page_num]))"

text \<open>
  The conversion of the ordered blocks to \<open>ContentBlock\<close>s: only the image blocks when
  the text blocks are skipped; otherwise all blocks, the text stripped, without the
  page number separators.
\<close>

fun normal_blocks :: "python_rt \<Rightarrow> ordered_block list \<Rightarrow> content_block list" where
  "normal_blocks u [] = []"
| "normal_blocks u (block # blocks) =
     (if block_type block = Text \<and> content block \<noteq> [] then
        let stripped = strip u (content block) in
        if is_page_number_separator u stripped then normal_blocks u blocks
        else \<lparr>cb_type = block_type block, cb_content = Some stripped\<rparr> # normal_blocks u blocks
      else \<lparr>cb_type = block_type block, cb_content = Some (content block)\<rparr> # normal_blocks u blocks)"

definition to_content_blocks :: "python_rt \<Rightarrow> bool \<Rightarrow> ordered_block list \<Rightarrow> content_block list" where
  "to_content_blocks u should_skip_text_blocks ordered_blocks =
     (if should_skip_text_blocks then
        map (\<lambda>block. \<lparr>cb_type = block_type block, cb_content = Some (content block)\<rparr>)
          (filter (\<lambda>block. block_type block = Image) ordered_blocks)
      else normal_blocks u ordered_blocks)"

text \<open>
  The body of the loop over the pages. \<open>pike_pdf\<close> tells whether pikepdf has opened
  the document, \<open>image_index\<close> is the index of the next placeholder.
\<close>

definition process_page ::
  "python_rt \<Rightarrow> config \<Rightarrow> read_pdf_input \<Rightarrow> bool \<Rightarrow> int \<Rightarrow> page_source \<Rightarrow> nat \<Rightarrow> page_outcome" where
  "process_page u cfg input_data pike_pdf page_num src image_index =
     (let mode = extraction_mode input_data;
          skip_text_extraction = (mode = Image_only);
          (extractable, text_hint_value, probe_events) =
            (if skip_text_extraction then probe_text u cfg page_num src
             else (None, None, [ExtractTables page_num, ExtractTextRegions page_num]));
          tables_with_position = (if skip_text_extraction then [] else tables src);
          text_lines_for_ordering = (if skip_text_extraction then [] else text_regions src);
          (is_corrupted, ratio, check_events) =
            (if \<not> skip_text_extraction then detect_corruption u cfg page_num src
             else (False, 0, []));
          should_include_image = (mode = Image_only \<or> (mode = Auto \<and> is_corrupted));
          page_img = (if should_include_image then rendered src else None);
          render_events = (if should_include_image then [RenderPage page_num] else []);
          page_images = (case page_img of None \<Rightarrow> [] | Some dims \<Rightarrow> [Jpeg]);
          index_after_page_image = image_index + length page_images;
          skip_image_extraction = (mode = Image_only \<or> mode = Text_only);
          image_tops = (if \<not> skip_image_extraction \<and> pike_pdf then embedded_images src else []);
          image_events =
            (if \<not> skip_image_extraction \<and> pike_pdf then [ExtractImages page_num] else []);
          images_with_position =
            map (\<lambda>(k, t). \<lparr>img_top = t, image_data = placeholder (index_after_page_image + k)\<rparr>)
              (zip [0..<length image_tops] image_tops);
          ordered_blocks =
            merge_adjacent_text_blocks
              (order_content_blocks text_lines_for_ordering tables_with_position
                 images_with_position);
          should_skip_text_blocks = ((mode = Auto \<and> is_corrupted) \<or> mode = Image_only)
      in
      \<lparr>page =
         \<lparr>page_number = page_num,
          content_blocks = to_content_blocks u should_skip_text_blocks ordered_blocks,
          text_corrupted = (if is_corrupted then Some True else None),
          corruption_ratio = (if is_corrupted then Some ratio else None),
          page_image = (case page_img of None \<Rightarrow> None | Some dims \<Rightarrow> Some (placeholder image_index)),
          page_image_width = (case page_img of None \<Rightarrow> None | Some dims \<Rightarrow> Some (fst dims)),
          page_image_height = (case page_img of None \<Rightarrow> None | Some dims \<Rightarrow> Some (snd dims)),
          extractable_char_count = extractable,
          text_hint = text_hint_value\<rparr>,
       new_images = page_images @ map (\<lambda>t. Png) image_tops,
       events = probe_events @ check_events @ render_events @ image_events\<rparr>)"

subsection \<open>The handler\<close>

record loop_state =
  pages_data :: "page_data list"
  total_images_count :: int
  extracted_images :: "image_format list"
  image_index :: nat
  trace :: "event list"

text \<open>
  \<open>for page_num in range(input_data.start_page, end_page + 1)\<close>, from \<open>page_num\<close> on.
  \<open>Inl\<close> stands for the IndexError of \<open>pdf.pages[page_num - 1]\<close>, with the calls made
  until then.
\<close>

function page_loop ::
  "python_rt \<Rightarrow> config \<Rightarrow> read_pdf_input \<Rightarrow> bool \<Rightarrow> page_source list \<Rightarrow> int \<Rightarrow> int \<Rightarrow>
     loop_state \<Rightarrow> event list + loop_state" where
  "page_loop u cfg input_data pike_pdf pdf_pages end_p page_num st =
     (if page_num < end_p + 1 then
        if page_num > int (length pdf_pages) then Inr st
        else
          case pages_getitem pdf_pages (page_num - 1) of
            None \<Rightarrow> Inl (trace st)
          | Some src \<Rightarrow>
              let out = process_page u cfg input_data pike_pdf page_num src (image_index st) in
              page_loop u cfg input_data pike_pdf pdf_pages end_p (page_num + 1)
                \<lparr>pages_data = pages_data st @ [page out],
                 total_images_count = total_images_count st + int (length (new_images out)),
                 extracted_images = extracted_images st @ new_images out,
                 image_index = image_index st + length (new_images out),
                 trace = trace st @ events out\<rparr>
      else Inr st)"
  by pat_completeness auto
termination
  by (relation "measure (\<lambda>(u, cfg, input_data, pike_pdf, pdf_pages, end_p, page_num, st).
                  nat (end_p + 1 - page_num))") auto

declare page_loop.simps [simp del]

text \<open>\<open>validate_path_security\<close>: \<open>is_relative_to\<close> compares the parts of the two paths.\<close>

definition validate_path_security :: "world \<Rightarrow> path \<Rightarrow> path \<Rightarrow> bool" where
  "validate_path_security w p allowed_base =
     (case resolve w p of
        None \<Rightarrow> False
      | Some resolved_path \<Rightarrow>
          (case resolve w allowed_base of
             None \<Rightarrow> False
           | Some resolved_base \<Rightarrow> take (length resolved_base) resolved_path = resolved_base))"

text \<open>
  \<open>read_pdf_handler\<close>: the response, the list of the extracted images, and the calls
  that were made. \<open>exception_text\<close> stands for the text of an exception that the last
  \<open>except\<close> clause reports.
\<close>

definition exception_text :: pystr where
  "exception_text = []"

definition read_pdf_handler ::
  "python_rt \<Rightarrow> config \<Rightarrow> world \<Rightarrow> arguments \<Rightarrow> (response \<times> image_format list) \<times> event list" where
  "read_pdf_handler u cfg w args =
     (case parse_input args of
        None \<Rightarrow> ((Failure (read_pdf_error INVALID_PDF (ErrorProcessing exception_text)), []), [])
      | Some input_data \<Rightarrow>
          (case resolve w (if is_absolute input_data then parts input_data
                           else cwd w @ parts input_data) of
             None \<Rightarrow>
               ((Failure (read_pdf_error INVALID_PDF (ErrorProcessing exception_text)), []), [])
           | Some pdf_path \<Rightarrow>
               if \<not> path_exists w pdf_path then
                 let similar_files = find_similar_pdfs w pdf_path in
                 ((Failure ((read_pdf_error FILE_NOT_FOUND (NotFoundSimilar pdf_path similar_files))
                     \<lparr>err_suggested_files :=
                        (if similar_files \<noteq> [] then Some similar_files else None)\<rparr>), []), [])
               else
                 (case resolve w (cwd w) of
                    None \<Rightarrow>
                      ((Failure (read_pdf_error INVALID_PDF (ErrorProcessing exception_text)), []), [])
                  | Some cwd_resolved \<Rightarrow>
                      if \<not> validate_path_security w pdf_path cwd_resolved then
                        ((Failure (read_pdf_error PERMISSION_DENIED AccessDenied), []), [])
                      else if \<not> access_read w pdf_path then
                        ((Failure (read_pdf_error PERMISSION_DENIED (CannotRead pdf_path)), []), [])
                      else
                        let validation =
                              validate_pdf_read_request cfg (pikepdf_open w pdf_path) pdf_path
                                (in_start_page input_data) (in_end_page input_data)
                        in
                        if \<not> valid validation then
                          (case (error validation, message validation) of
                             (Some e, Some m) \<Rightarrow>
                               ((Failure
                                   \<lparr>err_error = e, err_message = FromValidation m,
                                    err_total_pages = total_pages validation,
                                    err_total_images = total_images validation,
                                    err_suggested_ranges = suggested_ranges validation,
                                    err_suggested_files = None\<rparr>, []), [Validate])
                           | _ \<Rightarrow>
                               ((Failure (read_pdf_error INVALID_PDF
                                   (ErrorProcessing exception_text)), []), [Validate]))
                        else
                          (case pdfplumber_open w pdf_path of
                             Inl FileNotFoundError \<Rightarrow>
                               ((Failure (read_pdf_error FILE_NOT_FOUND PdfNotFound), []),
                                [Validate, OpenPdfplumber])
                           | Inl PermissionError \<Rightarrow>
                               ((Failure (read_pdf_error PERMISSION_DENIED PermissionDeniedAccessing), []),
                                [Validate, OpenPdfplumber])
                           | Inl (PdfError e) \<Rightarrow>
                               ((Failure (read_pdf_error INVALID_PDF (InvalidOrCorrupted e)), []),
                                [Validate, OpenPdfplumber])
                           | Inl (OtherException e) \<Rightarrow>
                               ((Failure (read_pdf_error INVALID_PDF (ErrorProcessing e)), []),
                                [Validate, OpenPdfplumber])
                           | Inr pdf_pages \<Rightarrow>
                               let total_pgs = int (length pdf_pages);
                                   end_p = min (or_total (in_end_page input_data) total_pgs) total_pgs;
                                   mode = extraction_mode input_data;
                                   need_pikepdf = (mode = Auto);
                                   pike_pdf = (need_pikepdf \<and>
                                     (case pikepdf_open w pdf_path of
                                        Inl e \<Rightarrow> False | Inr doc \<Rightarrow> True));
                                   st0 = \<lparr>pages_data = [], total_images_count = 0,
                                          extracted_images = [], image_index = 0,
                                          trace = [Validate, OpenPdfplumber] @
                                                  (if need_pikepdf then [OpenPikepdf] else [])\<rparr>
                               in
                               (case page_loop u cfg input_data pike_pdf pdf_pages end_p
                                       (in_start_page input_data) st0 of
                                  Inl calls \<Rightarrow>
                                    ((Failure (read_pdf_error INVALID_PDF
                                        (ErrorProcessing exception_text)), []), calls)
                                | Inr st \<Rightarrow>
                                    ((Success
                                        \<lparr>ok_file_path = pdf_path, ok_pages = pages_data st,
                                         ok_total_pages_read = int (length (pages_data st)),
                                         ok_total_images = total_images_count st\<rparr>,
                                      extracted_images st), trace st))))))"

subsection \<open>Examples\<close>

text \<open>
  A page that pdfminer reports as corrupted, a clean page with a page number separator,
  a request, and a world where \<open>a.pdf\<close> lies in the working directory and \<open>/etc/b.pdf\<close>
  outside of it, both of 15 pages.
\<close>

definition corrupted_page :: page_source where
  "corrupted_page =
     \<lparr>extract_text = Some (str ''abc''),
      tables = [\<lparr>table_top = 50, markdown = str ''| a |''\<rparr>],
      text_regions = [\<lparr>region_top = 0, region_text = str ''abc''\<rparr>],
      pdfminer_stderr = str ''Ignoring (1) Ignoring (2) Ignoring (3)'',
      rendered = Some (100, 200),
      embedded_images = [10]\<rparr>"

definition clean_page :: page_source where
  "clean_page =
     \<lparr>extract_text = Some (str ''abc''),
      tables = [\<lparr>table_top = 50, markdown = str ''| a |''\<rparr>],
      text_regions = [\<lparr>region_top = 0, region_text = str ''abc - 7 -''\<rparr>, \<lparr>region_top = 60, region_text = str ''- 7 -''\<rparr>],
      pdfminer_stderr = str ''Ignoring (1)'',
      rendered = Some (100, 200),
      embedded_images = [10]\<rparr>"

definition example_request :: read_pdf_input where
  "example_request =
     \<lparr>is_absolute = False, parts = [str ''a.pdf''], in_start_page = 1, in_end_page = None,
      filter_header_footer = True, crop_images = True, max_image_dimension = 842,
      extraction_mode = Auto, page_image_dpi = 100\<rparr>"

definition example_args :: arguments where
  "example_args =
     \<lparr>arg_is_absolute = False, arg_parts = [str ''a.pdf''], arg_start_page = 1,
      arg_end_page = None, arg_filter_header_footer = True, arg_crop_images = True,
      arg_max_image_dimension = 842, arg_extraction_mode = str ''auto'',
      arg_page_image_dpi = 100\<rparr>"

definition example_world :: world where
  "example_world =
     \<lparr>cwd = [str ''home'', str ''user''],
      resolve = (\<lambda>p. Some p),
      path_exists = (\<lambda>p. p = [str ''home'', str ''user'', str ''a.pdf''] \<or>
                          p = [str ''etc'', str ''b.pdf'']),
      access_read = (\<lambda>p. True),
      find_similar_pdfs = (\<lambda>p. []),
      pikepdf_open = (\<lambda>p. Inr (replicate 15 0)),
      pdfplumber_open = (\<lambda>p. Inr (replicate 15 clean_page))\<rparr>"

definition outside_args :: arguments where
  "outside_args = example_args\<lparr>arg_is_absolute := True, arg_parts := [str ''etc'', str ''b.pdf'']\<rparr>"

subsection \<open>Properties of a page\<close>

lemma detect_corruption_cases:
  "detect_corruption u cfg page_num src =
     (let wc = str_count (str ''Ignoring'') (pdfminer_stderr src) in
      if 3 \<le> wc then (True, truediv u (int wc) 10, [PdfminerCheck page_num])
      else (fst (is_text_corrupted u cfg (all_text_for_check (text_regions src) (tables src)) None),
            snd (is_text_corrupted u cfg (all_text_for_check (text_regions src) (tables src)) None),
            [PdfminerCheck page_num, CharHeuristic page_num]))"
  by (simp add: detect_corruption_def check_pdf_corruption_with_pdfminer_def Let_def
        split: prod.splits)

lemma process_page_text_mode:
  assumes "extraction_mode input_data \<noteq> Image_only"
  shows "text_corrupted (page (process_page u cfg input_data pike_pdf page_num src idx)) =
           (if fst (detect_corruption u cfg page_num src) then Some True else None)"
    and "corruption_ratio (page (process_page u cfg input_data pike_pdf page_num src idx)) =
           (if fst (detect_corruption u cfg page_num src)
            then Some (fst (snd (detect_corruption u cfg page_num src))) else None)"
    and "events (process_page u cfg input_data pike_pdf page_num src idx) =
           [ExtractTables page_num, ExtractTextRegions page_num] @
           snd (snd (detect_corruption u cfg page_num src)) @
           (if extraction_mode input_data = Auto \<and> fst (detect_corruption u cfg page_num src)
            then [RenderPage page_num] else []) @
           (if extraction_mode input_data = Auto \<and> pike_pdf then [ExtractImages page_num] else [])"
    and "page_image (page (process_page u cfg input_data pike_pdf page_num src idx)) =
           (if extraction_mode input_data = Auto \<and> fst (detect_corruption u cfg page_num src)
            then (case rendered src of None \<Rightarrow> None | Some dims \<Rightarrow> Some (placeholder idx))
            else None)"
  using assms
  by (cases "extraction_mode input_data";
      simp add: process_page_def Let_def split: prod.splits option.splits)+

lemma process_page_blocks_auto:
  assumes "extraction_mode input_data = Auto"
    and "fst (detect_corruption u cfg page_num src)"
  shows "\<forall>b \<in> set (content_blocks (page (process_page u cfg input_data pike_pdf page_num src
                                              idx))). cb_type b = Image"
  using assms
  by (auto simp: process_page_def Let_def to_content_blocks_def split: prod.splits)

lemma process_page_corrupted_example:
  "process_page ascii_rt default_config example_request True 1 corrupted_page 0 =
     \<lparr>page =
        \<lparr>page_number = 1,
         content_blocks = [\<lparr>cb_type = Image, cb_content = Some (str ''[IMAGE_1]'')\<rparr>],
         text_corrupted = Some True, corruption_ratio = Some (3 / 10),
         page_image = Some (str ''[IMAGE_0]''),
         page_image_width = Some 100, page_image_height = Some 200,
         extractable_char_count = None, text_hint = None\<rparr>,
      new_images = [Jpeg, Png],
      events = [ExtractTables 1, ExtractTextRegions 1, PdfminerCheck 1, RenderPage 1,
                ExtractImages 1]\<rparr>"
  by code_simp

lemma process_page_clean_example:
  "process_page ascii_rt default_config example_request True 1 clean_page 0 =
     \<lparr>page =
        \<lparr>page_number = 1,
         content_blocks =
           [\<lparr>cb_type = Text, cb_content = Some (str ''abc - 7 -'')\<rparr>,
            \<lparr>cb_type = Image, cb_content = Some (str ''[IMAGE_0]'')\<rparr>,
            \<lparr>cb_type = Table, cb_content = Some (str ''| a |'')\<rparr>],
         text_corrupted = None, corruption_ratio = None, page_image = None,
         page_image_width = None, page_image_height = None,
         extractable_char_count = None, text_hint = None\<rparr>,
      new_images = [Png],
      events = [ExtractTables 1, ExtractTextRegions 1, PdfminerCheck 1, CharHeuristic 1,
                ExtractImages 1]\<rparr>"
  by code_simp

lemma warning_counts:
  "str_count (str ''Ignoring'') (pdfminer_stderr corrupted_page) = 3"
  "str_count (str ''Ignoring'') (pdfminer_stderr clean_page) = 1"
  by code_simp+

text \<open>
  Claim C5. On a page whose text is extracted (mode \<open>auto\<close> or \<open>text_only\<close>), when
  pdfminer's output holds 3 or more \<open>Ignoring\<close> warnings the page is corrupted with the
  ratio \<open>warning_count / 10\<close> and \<open>is_text_corrupted\<close> is not called for the page; with
  fewer than 3 warnings the page has the verdict and the ratio of \<open>is_text_corrupted\<close>.
  The pdfminer check is called first, and the character heuristic is called exactly
  when there are fewer than 3 warnings.
\<close>

theorem pdfminer_warnings_take_precedence:
  assumes "extraction_mode input_data \<noteq> Image_only"
  shows
    "let out = process_page u cfg input_data pike_pdf page_num src idx;
         warning_count = str_count (str ''Ignoring'') (pdfminer_stderr src);
         heuristic = is_text_corrupted u cfg (all_text_for_check (text_regions src) (tables src)) None
     in (3 \<le> warning_count \<longrightarrow>
           text_corrupted (page out) = Some True \<and>
           corruption_ratio (page out) = Some (truediv u (int warning_count) 10) \<and>
           CharHeuristic page_num \<notin> set (events out)) \<and>
        (warning_count < 3 \<longrightarrow>
           (text_corrupted (page out) = Some True) = fst heuristic \<and>
           (fst heuristic \<longrightarrow> corruption_ratio (page out) = Some (snd heuristic))) \<and>
        filter (\<lambda>e. e = PdfminerCheck page_num \<or> e = CharHeuristic page_num) (events out) =
          (if warning_count < 3 then [PdfminerCheck page_num, CharHeuristic page_num]
           else [PdfminerCheck page_num])"
  unfolding Let_def process_page_text_mode [OF assms]
  by (simp add: detect_corruption_cases Let_def)

theorem pdfminer_warnings_take_precedence_witness:
  "extraction_mode example_request \<noteq> Image_only \<and>
   3 \<le> str_count (str ''Ignoring'') (pdfminer_stderr corrupted_page) \<and>
   text_corrupted (page (process_page ascii_rt default_config example_request True 1
                           corrupted_page 0)) = Some True \<and>
   corruption_ratio (page (process_page ascii_rt default_config example_request True 1
                             corrupted_page 0)) = Some (truediv ascii_rt 3 10) \<and>
   CharHeuristic 1 \<notin> set (events (process_page ascii_rt default_config example_request True 1
                                      corrupted_page 0)) \<and>
   str_count (str ''Ignoring'') (pdfminer_stderr clean_page) < 3 \<and>
   filter (\<lambda>e. e = PdfminerCheck 1 \<or> e = CharHeuristic 1)
     (events (process_page ascii_rt default_config example_request True 1 clean_page 0)) =
     [PdfminerCheck 1, CharHeuristic 1]"
proof -
  have m: "extraction_mode example_request \<noteq> Image_only"
    by (simp add: example_request_def)
  from pdfminer_warnings_take_precedence
         [OF m, of ascii_rt default_config True 1 corrupted_page 0]
       pdfminer_warnings_take_precedence
         [OF m, of ascii_rt default_config True 1 clean_page 0]
  show ?thesis
    using m by (simp add: Let_def warning_counts)
qed

text \<open>
  Claim C2. On a page processed in mode \<open>auto\<close>, the page image is rendered if and only
  if corruption was detected on the page; the page carries a page image exactly when
  corruption was detected and the rendering succeeded; and when corruption was
  detected every content block of the page is an image block.
\<close>

theorem auto_mode_renders_iff_corrupted:
  assumes "extraction_mode input_data = Auto"
  shows
    "let out = process_page u cfg input_data pike_pdf page_num src idx;
         corrupted = (text_corrupted (page out) = Some True)
     in (RenderPage page_num \<in> set (events out)) = corrupted \<and>
        (page_image (page out) \<noteq> None) = (corrupted \<and> rendered src \<noteq> None) \<and>
        (corrupted \<longrightarrow> (\<forall>b \<in> set (content_blocks (page out)). cb_type b = Image))"
proof -
  have m: "extraction_mode input_data \<noteq> Image_only" using assms by simp
  have c: "(text_corrupted (page (process_page u cfg input_data pike_pdf page_num src idx))
              = Some True) = fst (detect_corruption u cfg page_num src)"
    by (simp add: process_page_text_mode(1) [OF m])
  have e: "(RenderPage page_num \<in> set (events (process_page u cfg input_data pike_pdf page_num src
              idx))) = fst (detect_corruption u cfg page_num src)"
    using assms by (simp add: process_page_text_mode(3) [OF m] detect_corruption_cases Let_def)
  have i: "(page_image (page (process_page u cfg input_data pike_pdf page_num src idx))
              \<noteq> None) = (fst (detect_corruption u cfg page_num src) \<and> rendered src \<noteq> None)"
    using assms by (simp add: process_page_text_mode(4) [OF m] split: option.splits)
  show ?thesis
    unfolding Let_def c e i
    using process_page_blocks_auto [OF assms] by blast
qed

theorem auto_mode_renders_iff_corrupted_witness:
  "extraction_mode example_request = Auto \<and>
   text_corrupted (page (process_page ascii_rt default_config example_request True 1
                           corrupted_page 0)) = Some True \<and>
   RenderPage 1 \<in> set (events (process_page ascii_rt default_config example_request True 1
                                   corrupted_page 0)) \<and>
   page_image (page (process_page ascii_rt default_config example_request True 1
                       corrupted_page 0)) \<noteq> None \<and>
   content_blocks (page (process_page ascii_rt default_config example_request True 1
                           corrupted_page 0)) \<noteq> [] \<and>
   list_all (\<lambda>b. cb_type b = Image)
     (content_blocks (page (process_page ascii_rt default_config example_request True 1
                              corrupted_page 0))) \<and>
   text_corrupted (page (process_page ascii_rt default_config example_request True 1
                           clean_page 0)) \<noteq> Some True \<and>
   RenderPage 1 \<notin> set (events (process_page ascii_rt default_config example_request True 1
                                   clean_page 0))"
proof -
  have m: "extraction_mode example_request = Auto"
    by (simp add: example_request_def)
  have c: "text_corrupted (page (process_page ascii_rt default_config example_request True 1
                                   corrupted_page 0)) = Some True"
          "content_blocks (page (process_page ascii_rt default_config example_request True 1
                                   corrupted_page 0)) \<noteq> []"
    by (simp_all add: process_page_corrupted_example)
  have r: "rendered corrupted_page \<noteq> None"
    by (simp add: corrupted_page_def)
  have n: "text_corrupted (page (process_page ascii_rt default_config example_request True 1
                                   clean_page 0)) \<noteq> Some True"
    by (simp add: process_page_clean_example)
  from auto_mode_renders_iff_corrupted [OF m, of ascii_rt default_config True 1 corrupted_page 0]
       auto_mode_renders_iff_corrupted [OF m, of ascii_rt default_config True 1 clean_page 0]
  show ?thesis
    using m c r n unfolding Let_def list_all_iff by blast
qed

subsection \<open>Properties of the handler\<close>

lemma validate_valid_or_error:
  "valid (validate_pdf_read_request cfg opened pdf_path start_p end_p) \<or>
   (error (validate_pdf_read_request cfg opened pdf_path start_p end_p) \<noteq> None \<and>
    message (validate_pdf_read_request cfg opened pdf_path start_p end_p) \<noteq> None)"
  by (simp add: validate_pdf_read_request_def validation_error_def Let_def
        split: option.split sum.split open_error.split)

lemma validate_invalid_has_error:
  assumes "\<not> valid (validate_pdf_read_request cfg opened pdf_path start_p end_p)"
  shows "\<exists>e m. error (validate_pdf_read_request cfg opened pdf_path start_p end_p) = Some e \<and>
               message (validate_pdf_read_request cfg opened pdf_path start_p end_p) = Some m"
  using assms validate_valid_or_error [of cfg opened pdf_path start_p end_p] by auto

lemma validate_page_limit:
  assumes "1 \<le> start_p" and "start_p \<le> int (length doc)"
    and "end_p = None \<or> start_p \<le> the end_p"
    and "max_pages_per_request cfg <
           min (or_total end_p (int (length doc))) (int (length doc)) - start_p + 1"
  shows "\<not> valid (validate_pdf_read_request cfg (Inr doc) pdf_path start_p end_p) \<and>
         error (validate_pdf_read_request cfg (Inr doc) pdf_path start_p end_p) =
           Some PAGE_LIMIT_EXCEEDED"
proof -
  obtain rs where rs:
    "calculate_suggested_ranges cfg doc start_p
       (min (or_total end_p (int (length doc))) (int (length doc)))
       (max_pages_per_request cfg) (max_images_per_request cfg) = Some rs"
    using suggest_loop_returns [OF assms(1), of cfg doc
            "min (or_total end_p (int (length doc))) (int (length doc))"
            "max_pages_per_request cfg" "max_images_per_request cfg" "[]"]
    by (auto simp: calculate_suggested_ranges_def)
  have g: "\<not> start_p > int (length doc)" "\<not> (end_p \<noteq> None \<and> the end_p < start_p)"
    using assms(2,3) by auto
  show ?thesis
    using g assms(4) rs
    by (simp add: validate_pdf_read_request_def Let_def validation_error_def)
qed

lemma example_parse: "parse_input example_args = Some example_request"
  by (simp add: parse_input_def example_args_def example_request_def
        validate_extraction_mode_def str_def)

text \<open>
  Claim C4. For a request that passes the checks of its arguments and of its path, the
  handler answers a request that the validator rejects with the validator's error,
  message, totals and suggested ranges, returns no image, and has made no call but the
  validation: no page of the document is opened for text, tables, images or rendering.
  A request of more pages than \<open>max_pages_per_request\<close> is such a request: the validator
  rejects it with PAGE_LIMIT_EXCEEDED.
\<close>

theorem validation_failure_precedes_extraction:
  assumes "parse_input args = Some input_data"
    and "resolve w (if is_absolute input_data then parts input_data
                    else cwd w @ parts input_data) = Some pdf_path"
    and "path_exists w pdf_path"
    and "resolve w (cwd w) = Some cwd_resolved"
    and "validate_path_security w pdf_path cwd_resolved"
    and "access_read w pdf_path"
  shows
    "let validation = validate_pdf_read_request cfg (pikepdf_open w pdf_path) pdf_path
                        (in_start_page input_data) (in_end_page input_data);
         result = read_pdf_handler u cfg w args
     in (\<not> valid validation \<longrightarrow>
           snd result = [Validate] \<and> snd (fst result) = [] \<and>
           (\<exists>e m. error validation = Some e \<and> message validation = Some m \<and>
              fst (fst result) =
                Failure \<lparr>err_error = e, err_message = FromValidation m,
                         err_total_pages = total_pages validation,
                         err_total_images = total_images validation,
                         err_suggested_ranges = suggested_ranges validation,
                         err_suggested_files = None\<rparr>)) \<and>
        (\<forall>doc. pikepdf_open w pdf_path = Inr doc \<longrightarrow>
           in_start_page input_data \<le> int (length doc) \<longrightarrow>
           max_pages_per_request cfg <
             min (or_total (in_end_page input_data) (int (length doc))) (int (length doc))
               - in_start_page input_data + 1 \<longrightarrow>
           \<not> valid validation \<and> error validation = Some PAGE_LIMIT_EXCEEDED)"
proof -
  define validation where
    "validation = validate_pdf_read_request cfg (pikepdf_open w pdf_path) pdf_path
                    (in_start_page input_data) (in_end_page input_data)"
  have rejected: "snd (read_pdf_handler u cfg w args) = [Validate] \<and>
           snd (fst (read_pdf_handler u cfg w args)) = [] \<and>
           (\<exists>e m. error validation = Some e \<and> message validation = Some m \<and>
              fst (fst (read_pdf_handler u cfg w args)) =
                Failure \<lparr>err_error = e, err_message = FromValidation m,
                         err_total_pages = total_pages validation,
                         err_total_images = total_images validation,
                         err_suggested_ranges = suggested_ranges validation,
                         err_suggested_files = None\<rparr>)"
    if inv: "\<not> valid validation"
  proof -
    obtain e m where em: "error validation = Some e" "message validation = Some m"
      using validate_invalid_has_error inv unfolding validation_def by blast
    have "read_pdf_handler u cfg w args =
            ((Failure \<lparr>err_error = e, err_message = FromValidation m,
                       err_total_pages = total_pages validation,
                       err_total_images = total_images validation,
                       err_suggested_ranges = suggested_ranges validation,
                       err_suggested_files = None\<rparr>, []), [Validate])"
      using assms inv [unfolded validation_def] em [unfolded validation_def]
      unfolding read_pdf_handler_def validation_def
      by (simp only: option.case Let_def if_True if_False not_True_eq_False
            not_False_eq_True simp_thms prod.case)
    with em show ?thesis by simp
  qed
  have bounds: "1 \<le> in_start_page input_data"
               "in_end_page input_data = None \<or>
                in_start_page input_data \<le> the (in_end_page input_data)"
    using assms(1)
    by (auto simp: parse_input_def split: if_splits option.splits)
  have limit: "\<not> valid validation \<and> error validation = Some PAGE_LIMIT_EXCEEDED"
    if "pikepdf_open w pdf_path = Inr doc" "in_start_page input_data \<le> int (length doc)"
       "max_pages_per_request cfg <
             min (or_total (in_end_page input_data) (int (length doc))) (int (length doc))
               - in_start_page input_data + 1" for doc
    using validate_page_limit [OF bounds(1) that(2) bounds(2) that(3), of pdf_path] that(1)
    by (simp add: validation_def)
  show ?thesis
    unfolding Let_def validation_def [symmetric]
    using rejected limit by blast
qed

theorem validation_failure_precedes_extraction_witness:
  "parse_input example_args = Some example_request \<and>
   resolve example_world (cwd example_world @ parts example_request) =
     Some [str ''home'', str ''user'', str ''a.pdf''] \<and>
   path_exists example_world [str ''home'', str ''user'', str ''a.pdf''] \<and>
   validate_path_security example_world [str ''home'', str ''user'', str ''a.pdf'']
     [str ''home'', str ''user''] \<and>
   access_read example_world [str ''home'', str ''user'', str ''a.pdf''] \<and>
   \<not> valid (validate_pdf_read_request default_config (Inr (replicate 15 0))
              [str ''home'', str ''user'', str ''a.pdf''] 1 None) \<and>
   snd (read_pdf_handler ascii_rt default_config example_world example_args) = [Validate] \<and>
   (\<exists>e. fst (fst (read_pdf_handler ascii_rt default_config example_world example_args)) =
          Failure e \<and> err_error e = PAGE_LIMIT_EXCEEDED)"
proof -
  let ?p = "[str ''home'', str ''user'', str ''a.pdf'']"
  have h: "parse_input example_args = Some example_request"
    "resolve example_world (if is_absolute example_request then parts example_request
        else cwd example_world @ parts example_request) = Some ?p"
    "path_exists example_world ?p"
    "resolve example_world (cwd example_world) = Some [str ''home'', str ''user'']"
    "validate_path_security example_world ?p [str ''home'', str ''user'']"
    "access_read example_world ?p"
    by (simp_all add: example_parse example_world_def example_request_def
          validate_path_security_def)
  have o: "pikepdf_open example_world ?p = Inr (replicate 15 0)"
    by (simp add: example_world_def)
  have l: "in_start_page example_request \<le> int (length (replicate 15 (0::nat)))"
    "max_pages_per_request default_config <
       min (or_total (in_end_page example_request) (int (length (replicate 15 (0::nat)))))
           (int (length (replicate 15 (0::nat)))) - in_start_page example_request + 1"
    by (simp_all add: example_request_def default_config_def or_total_def)
  let ?v = "validate_pdf_read_request default_config (Inr (replicate 15 0)) ?p
              (in_start_page example_request) (in_end_page example_request)"
  note t = validation_failure_precedes_extraction
             [OF h, of default_config ascii_rt, unfolded Let_def o]
  from t l have inv: "\<not> valid ?v \<and> error ?v = Some PAGE_LIMIT_EXCEEDED"
    by blast
  with t have "snd (read_pdf_handler ascii_rt default_config example_world example_args)
                 = [Validate] \<and>
        (\<exists>e. fst (fst (read_pdf_handler ascii_rt default_config example_world example_args)) =
          Failure e \<and> err_error e = PAGE_LIMIT_EXCEEDED)"
    by auto
  with inv h show ?thesis
    by (simp add: example_request_def example_world_def)
qed

text \<open>
  Claim C9. When the resolved path of the request exists and, after both paths are
  resolved again by \<open>validate_path_security\<close>, does not lie under the current working
  directory, the handler returns PERMISSION_DENIED with no image and has made no call:
  neither the validation nor any extraction.
\<close>

theorem path_outside_cwd_denied:
  assumes "parse_input args = Some input_data"
    and "resolve w (if is_absolute input_data then parts input_data
                    else cwd w @ parts input_data) = Some pdf_path"
    and "path_exists w pdf_path"
    and "resolve w (cwd w) = Some cwd_resolved"
    and "resolve w pdf_path = Some resolved_path"
    and "resolve w cwd_resolved = Some resolved_base"
    and "take (length resolved_base) resolved_path \<noteq> resolved_base"
  shows "read_pdf_handler u cfg w args =
           ((Failure (read_pdf_error PERMISSION_DENIED AccessDenied), []), [])"
proof -
  have "\<not> validate_path_security w pdf_path cwd_resolved"
    using assms(5-7) by (simp add: validate_path_security_def)
  then show ?thesis
    using assms(1-4)
    unfolding read_pdf_handler_def
    by (simp only: option.case Let_def if_True if_False not_True_eq_False simp_thms)
qed

theorem path_outside_cwd_denied_witness:
  "parse_input outside_args \<noteq> None \<and>
   path_exists example_world [str ''etc'', str ''b.pdf''] \<and>
   take (length (cwd example_world)) [str ''etc'', str ''b.pdf''] \<noteq> cwd example_world \<and>
   read_pdf_handler ascii_rt default_config example_world outside_args =
     ((Failure (read_pdf_error PERMISSION_DENIED AccessDenied), []), [])"
proof -
  let ?inp = "example_request\<lparr>is_absolute := True, parts := [str ''etc'', str ''b.pdf'']\<rparr>"
  have h: "parse_input outside_args = Some ?inp"
    "resolve example_world (if is_absolute ?inp then parts ?inp
        else cwd example_world @ parts ?inp) = Some [str ''etc'', str ''b.pdf'']"
    "path_exists example_world [str ''etc'', str ''b.pdf'']"
    "resolve example_world (cwd example_world) = Some [str ''home'', str ''user'']"
    "resolve example_world [str ''etc'', str ''b.pdf''] = Some [str ''etc'', str ''b.pdf'']"
    "resolve example_world [str ''home'', str ''user''] = Some [str ''home'', str ''user'']"
    "take (length [str ''home'', str ''user'']) [str ''etc'', str ''b.pdf'']
       \<noteq> [str ''home'', str ''user'']"
    by (simp_all add: parse_input_def outside_args_def example_args_def example_request_def
          validate_extraction_mode_def str_def example_world_def)
  from path_outside_cwd_denied [OF h, of ascii_rt default_config]
  show ?thesis
    using h by (simp add: example_world_def)
qed

end
